theory Spec2Isabelle
  imports Main
begin

section \<open>Data model\<close>

text \<open>
  The error kinds a traversal or a migration can surface. A rejected promise or a thrown
  exception of the TypeScript source is a value of this type in the model.
\<close>

datatype error = ConfigurationError | FetchError | CallbackError | CommitError

text \<open>
  A query document snapshot: the reference of the document (\<open>snapshot.ref\<close>) and the data
  read from it. The reference is the key the backing store orders the collection by.
\<close>

record ('k, 'v) snapshot =
  ref :: 'k
  sdata :: 'v

text \<open>
  A JavaScript argument as \<open>BatchMigrator.update\<close> inspects it: \<open>undefined\<close>, a function
  (\<open>typeof a === 'function'\<close>) or any other value.
\<close>

datatype ('s, 'v) jsarg = Undefined | Function "'s \<Rightarrow> 'v" | Value 'v

text \<open>
  The first argument of \<open>BatchMigrator.set\<close>: a data object, or a function from the
  snapshot to the data object.
\<close>

datatype ('s, 'v) data_or_getter = Data 'v | GetData "'s \<Rightarrow> 'v"

text \<open>
  One operation queued in a Firestore write batch. The four constructors are the four call
  shapes the source uses: \<open>writeBatch.set(ref, data)\<close>, \<open>writeBatch.set(ref, data, options)\<close>,
  \<open>writeBatch.update(ref, data)\<close> and \<open>writeBatch.update(ref, field, value)\<close>.
\<close>

datatype ('k, 'v, 'o) write_op =
    WSet 'k 'v
  | WSetOptions 'k 'v 'o
  | WUpdate 'k "(('k, 'v) snapshot, 'v) jsarg"
  | WUpdateField 'k "(('k, 'v) snapshot, 'v) jsarg" "(('k, 'v) snapshot, 'v) jsarg"

fun write_ref :: "('k, 'v, 'o) write_op \<Rightarrow> 'k" where
  "write_ref (WSet r _) = r"
| "write_ref (WSetOptions r _ _) = r"
| "write_ref (WUpdate r _) = r"
| "write_ref (WUpdateField r _ _) = r"

text \<open>
  The traversal configuration. \<open>maxDocCount = None\<close> is the unbounded limit (JavaScript's
  \<open>Infinity\<close>); \<open>maxConcurrentBatchCount\<close> is present only in the configuration of the
  concurrent traverser. The fields are integers because an invalid configuration can
  hold a non-positive batch size or a negative delay.
\<close>

record traversal_config =
  batchSize :: int
  delayBetweenBatchesMs :: int
  maxDocCount :: "int option"
  maxConcurrentBatchCount :: "int option"

text \<open>
  A traversable: the documents of the collection or query, and the handle of the store
  they live in (\<open>traversable.firestore\<close>). The handle is the store's batched-write
  capability: \<open>firestore_commit ws fs\<close> commits the write batch \<open>ws\<close> against the store
  contents \<open>fs\<close>; \<open>None\<close> is a rejected commit, \<open>Some fs'\<close> the contents after a
  successful one.
\<close>

record ('k, 'v, 'o, 'fs) traversable =
  docs :: "('k, 'v) snapshot list"
  firestore_commit :: "('k, 'v, 'o) write_op list \<Rightarrow> 'fs \<Rightarrow> 'fs option"

record ('k, 'v, 'o, 'fs) traverser =
  traversable :: "('k, 'v, 'o, 'fs) traversable"
  exitEarlyPredicates :: "(('k, 'v) snapshot list \<Rightarrow> nat \<Rightarrow> bool) list"
  traversalConfig :: traversal_config

record TraversalResult =
  batchCount :: nat
  docCount :: nat

section \<open>Configuration validation and traverser construction\<close>

text \<open>
  Modelled from the spec: \<open>validateConfig\<close> is imported by the migrator from
  \<open>./validateConfig\<close>, which is not among the sources. The spec rejects a configuration
  with a non-positive batch size, a non-positive concurrency or a negative delay.
  \<open>None\<close> is a configuration that passes, \<open>Some e\<close> the error thrown.
\<close>

definition validateConfig :: "traversal_config \<Rightarrow> error option" where
  "validateConfig c =
     (if batchSize c \<le> 0 then Some ConfigurationError
      else if delayBetweenBatchesMs c < 0 then Some ConfigurationError
      else (case maxConcurrentBatchCount c of
              None \<Rightarrow> None
            | Some k \<Rightarrow> if k \<le> 0 then Some ConfigurationError else None))"

text \<open>
  Modelled from the spec: the constructors of the classes
  \<open>BasicSlowTraverserImplementation\<close> and \<open>PromiseQueueBasedFastTraverserImplementation\<close>
  are not among the sources. The spec validates the configuration once, at construction,
  and rejects an invalid one with a configuration error. The configuration argument is
  the configuration after the constructor's merge with its defaults.
\<close>

definition BasicSlowTraverserImplementation ::
  "('k, 'v, 'o, 'fs) traversable \<Rightarrow> (('k, 'v) snapshot list \<Rightarrow> nat \<Rightarrow> bool) list \<Rightarrow>
   traversal_config \<Rightarrow> error + ('k, 'v, 'o, 'fs) traverser" where
  "BasicSlowTraverserImplementation tb preds config =
     (case validateConfig config of
        Some e \<Rightarrow> Inl e
      | None \<Rightarrow> Inr \<lparr>traversable = tb, exitEarlyPredicates = preds, traversalConfig = config\<rparr>)"

definition PromiseQueueBasedFastTraverserImplementation ::
  "('k, 'v, 'o, 'fs) traversable \<Rightarrow> (('k, 'v) snapshot list \<Rightarrow> nat \<Rightarrow> bool) list \<Rightarrow>
   traversal_config \<Rightarrow> error + ('k, 'v, 'o, 'fs) traverser" where
  "PromiseQueueBasedFastTraverserImplementation tb preds config =
     (case validateConfig config of
        Some e \<Rightarrow> Inl e
      | None \<Rightarrow> Inr \<lparr>traversable = tb, exitEarlyPredicates = preds, traversalConfig = config\<rparr>)"

text \<open>\<open>createTraverser\<close> and \<open>createFastTraverser\<close>, as in the source: no exit-early predicate.\<close>

definition createTraverser ::
  "('k, 'v, 'o, 'fs) traversable \<Rightarrow> traversal_config \<Rightarrow> error + ('k, 'v, 'o, 'fs) traverser" where
  "createTraverser tb config = BasicSlowTraverserImplementation tb [] config"

definition createFastTraverser ::
  "('k, 'v, 'o, 'fs) traversable \<Rightarrow> traversal_config \<Rightarrow> error + ('k, 'v, 'o, 'fs) traverser" where
  "createFastTraverser tb config = PromiseQueueBasedFastTraverserImplementation tb [] config"

section \<open>The sequential traverser\<close>

text \<open>
  Modelled from the spec: the class \<open>BasicSlowTraverserImplementation\<close> is not among the
  sources; \<open>Traverser.ts\<close> only documents \<open>traverse\<close> (the callback is invoked for each
  batch and awaited before the traverser moves to the next batch). The spec's page fetch
  returns up to \<open>limit\<close> records, in the order of a stable key, starting strictly after
  the cursor, or from the start without a cursor; the cursor is the last record of the
  previous page. The key is the document reference.
\<close>

definition orderedDocs :: "('k::linorder, 'v, 'o, 'fs) traversable \<Rightarrow> ('k, 'v) snapshot list" where
  "orderedDocs tb = sort_key ref (docs tb)"

definition startAfter ::
  "('k::linorder, 'v, 'o, 'fs) traversable \<Rightarrow> ('k, 'v) snapshot option \<Rightarrow> ('k, 'v) snapshot list" where
  "startAfter tb cursor =
     (case cursor of
        None \<Rightarrow> orderedDocs tb
      | Some c \<Rightarrow> filter (\<lambda>s. ref c < ref s) (orderedDocs tb))"

definition fetchPage ::
  "('k::linorder, 'v, 'o, 'fs) traversable \<Rightarrow> ('k, 'v) snapshot option \<Rightarrow> nat \<Rightarrow>
   ('k, 'v) snapshot list" where
  "fetchPage tb cursor limit = take limit (startAfter tb cursor)"

text \<open>
  Modelled from the spec: the traversal stops after a batch when the record count has
  reached \<open>maxDocCount\<close> or an early exit is signalled. The early-exit signal is the list of
  exit-early predicates the traverser is constructed with (\<open>createTraverser\<close> passes the
  empty list): the traversal exits when one of them accepts the batch.
\<close>

definition limitReached :: "traversal_config \<Rightarrow> nat \<Rightarrow> bool" where
  "limitReached c n = (case maxDocCount c of None \<Rightarrow> False | Some m \<Rightarrow> m \<le> int n)"

definition shouldExitEarly ::
  "(('k, 'v) snapshot list \<Rightarrow> nat \<Rightarrow> bool) list \<Rightarrow> ('k, 'v) snapshot list \<Rightarrow> nat \<Rightarrow> bool" where
  "shouldExitEarly preds page batchIndex = list_ex (\<lambda>p. p page batchIndex) preds"

text \<open>
  Modelled from the spec: the loop of the sequential traverser (Fetching, Invoking,
  Advancing, Done). The callback is a state transformer on the caller's state \<open>'s\<close> that
  may fail: \<open>(Some e, s')\<close> is a rejected promise, and the effects it had before it failed
  stay in \<open>s'\<close>. A failure aborts the traversal and no result is returned. Every page is
  requested with the batch size as its limit. The delay between batches has no effect on
  any value and is left out, as are the traverser's own batch hooks; a page fetch does
  not fail.
\<close>

function traverse_from ::
  "('k::linorder, 'v, 'o, 'fs) traverser \<Rightarrow>
   (('k, 'v) snapshot list \<Rightarrow> nat \<Rightarrow> 's \<Rightarrow> error option \<times> 's) \<Rightarrow>
   ('k, 'v) snapshot option \<Rightarrow> nat \<Rightarrow> nat \<Rightarrow> 's \<Rightarrow> (error + TraversalResult) \<times> 's" where
  "traverse_from t callback cursor bc dc st =
     (let page = fetchPage (traversable t) cursor (nat (batchSize (traversalConfig t))) in
      if page = [] then (Inr \<lparr>batchCount = bc, docCount = dc\<rparr>, st)
      else
        (case callback page bc st of
           (Some e, st') \<Rightarrow> (Inl e, st')
         | (None, st') \<Rightarrow>
             (if limitReached (traversalConfig t) (dc + length page)
                 \<or> shouldExitEarly (exitEarlyPredicates t) page bc
              then (Inr \<lparr>batchCount = bc + 1, docCount = dc + length page\<rparr>, st')
              else traverse_from t callback (Some (last page)) (bc + 1) (dc + length page) st')))"
  by pat_completeness auto

lemma filter_length_mono:
  "(\<And>y. Q y \<Longrightarrow> P y) \<Longrightarrow> length (filter Q xs) \<le> length (filter P xs)"
  by (induction xs) auto

lemma filter_length_less:
  "x \<in> set xs \<Longrightarrow> P x \<Longrightarrow> \<not> Q x \<Longrightarrow> (\<And>y. Q y \<Longrightarrow> P y) \<Longrightarrow>
   length (filter Q xs) < length (filter P xs)"
proof (induction xs)
  case Nil
  then show ?case by simp
next
  case (Cons a xs)
  have le: "length (filter Q xs) \<le> length (filter P xs)"
    using Cons.prems(4) by (rule filter_length_mono)
  show ?case
  proof (cases "x = a")
    case True
    with Cons.prems le show ?thesis by simp
  next
    case False
    with Cons have "length (filter Q xs) < length (filter P xs)" by simp
    with Cons.prems(4) show ?thesis by auto
  qed
qed

lemma startAfter_last_less:
  assumes "fetchPage tb cursor limit \<noteq> []"
  shows "length (startAfter tb (Some (last (fetchPage tb cursor limit))))
         < length (startAfter tb cursor)"
proof -
  let ?l = "last (fetchPage tb cursor limit)"
  have "?l \<in> set (fetchPage tb cursor limit)"
    using assms by (rule last_in_set)
  then have mem: "?l \<in> set (startAfter tb cursor)"
    unfolding fetchPage_def by (rule in_set_takeD)
  show ?thesis
  proof (cases cursor)
    case None
    with mem have "?l \<in> set (orderedDocs tb)" by (simp add: startAfter_def)
    then have "length (filter (\<lambda>s. ref ?l < ref s) (orderedDocs tb))
               < length (filter (\<lambda>s. True) (orderedDocs tb))"
      by (rule filter_length_less) simp_all
    with None show ?thesis by (simp add: startAfter_def)
  next
    case (Some c)
    with mem have "?l \<in> set (orderedDocs tb)" and "ref c < ref ?l"
      by (simp_all add: startAfter_def)
    then have "length (filter (\<lambda>s. ref ?l < ref s) (orderedDocs tb))
               < length (filter (\<lambda>s. ref c < ref s) (orderedDocs tb))"
      by (intro filter_length_less[where x = ?l]) auto
    with Some show ?thesis by (simp add: startAfter_def)
  qed
qed

termination traverse_from
  apply (relation "measure (\<lambda>(t, cb, cursor, bc, dc, st). length (startAfter (traversable t) cursor))")
   apply simp
  apply (simp add: startAfter_last_less)
  done

declare traverse_from.simps [simp del]

definition traverse ::
  "('k::linorder, 'v, 'o, 'fs) traverser \<Rightarrow>
   (('k, 'v) snapshot list \<Rightarrow> nat \<Rightarrow> 's \<Rightarrow> error option \<times> 's) \<Rightarrow> 's \<Rightarrow>
   (error + TraversalResult) \<times> 's" where
  "traverse t callback st = traverse_from t callback None 0 0 st"

section \<open>The batch migrator\<close>

text \<open>
  What a migration leaves behind, in the order it happened: a hook that fired (with what
  the hook computed from the batch and its index), a write batch that was committed, a
  write batch whose commit was rejected.
\<close>

datatype ('h, 'w) event = HookFired 'h | Committed "'w list" | CommitRejected "'w list"

text \<open>
  The state a migration call works on: the contents of the store, the local variable
  \<open>migratedDocCount\<close> of \<open>set\<close> and \<open>update\<close>, and the trace of events.
\<close>

record ('k, 'v, 'o, 'fs, 'h) migration_state =
  store :: 'fs
  migratedDocCountVar :: nat
  trace :: "('h, ('k, 'v, 'o) write_op) event list"

text \<open>
  Modelled from the spec: \<open>registeredCallbacks\<close> is a field of the abstract class
  \<open>Migrator\<close>, which is not among the sources. It has one optional slot per hook point,
  empty on a new object; registering a hook replaces the one in its slot. A hook is a
  synchronous function of the batch and the batch index.
\<close>

record ('k, 'v, 'h) registered_callbacks =
  onBeforeBatchStart :: "(('k, 'v) snapshot list \<Rightarrow> nat \<Rightarrow> 'h) option"
  onAfterBatchComplete :: "(('k, 'v) snapshot list \<Rightarrow> nat \<Rightarrow> 'h) option"

record ('k, 'v, 'o, 'fs, 'h) batch_migrator =
  traverser :: "('k, 'v, 'o, 'fs) traverser"
  migrationPredicate :: "('k, 'v) snapshot \<Rightarrow> bool"
  registeredCallbacks :: "('k, 'v, 'h) registered_callbacks"

text \<open>
  The result of a migration call; \<open>migrationBatchCount\<close> is the field \<open>batchCount\<close> of the
  source's result (the name is taken by \<open>TraversalResult\<close>).
\<close>

record MigrationResult =
  migrationBatchCount :: nat
  traversedDocCount :: nat
  migratedDocCount :: nat

text \<open>
  The constructor of \<open>BatchMigrator\<close>: the predicate defaults to \<open>() => true\<close>, the hook slots
  start empty, and the traverser's configuration is validated.
\<close>

definition new_BatchMigrator ::
  "('k, 'v, 'o, 'fs) traverser \<Rightarrow> (('k, 'v) snapshot \<Rightarrow> bool) option \<Rightarrow>
   error + ('k, 'v, 'o, 'fs, 'h) batch_migrator" where
  "new_BatchMigrator t predicate =
     (case validateConfig (traversalConfig t) of
        Some e \<Rightarrow> Inl e
      | None \<Rightarrow>
          Inr \<lparr>traverser = t,
               migrationPredicate = (case predicate of None \<Rightarrow> (\<lambda>_. True) | Some p \<Rightarrow> p),
               registeredCallbacks = \<lparr>onBeforeBatchStart = None, onAfterBatchComplete = None\<rparr>\<rparr>)"

definition withPredicate ::
  "('k, 'v, 'o, 'fs, 'h) batch_migrator \<Rightarrow> (('k, 'v) snapshot \<Rightarrow> bool) \<Rightarrow>
   error + ('k, 'v, 'o, 'fs, 'h) batch_migrator" where
  "withPredicate m predicate = new_BatchMigrator (traverser m) (Some predicate)"

definition register_onBeforeBatchStart ::
  "('k, 'v, 'o, 'fs, 'h) batch_migrator \<Rightarrow> (('k, 'v) snapshot list \<Rightarrow> nat \<Rightarrow> 'h) \<Rightarrow>
   ('k, 'v, 'o, 'fs, 'h) batch_migrator" where
  "register_onBeforeBatchStart m callback =
     m\<lparr>registeredCallbacks := (registeredCallbacks m)\<lparr>onBeforeBatchStart := Some callback\<rparr>\<rparr>"

definition register_onAfterBatchComplete ::
  "('k, 'v, 'o, 'fs, 'h) batch_migrator \<Rightarrow> (('k, 'v) snapshot list \<Rightarrow> nat \<Rightarrow> 'h) \<Rightarrow>
   ('k, 'v, 'o, 'fs, 'h) batch_migrator" where
  "register_onAfterBatchComplete m callback =
     m\<lparr>registeredCallbacks := (registeredCallbacks m)\<lparr>onAfterBatchComplete := Some callback\<rparr>\<rparr>"

text \<open>The optional call \<open>hook?.(snapshots, batchIndex)\<close>.\<close>

definition invokeHook ::
  "(('k, 'v) snapshot list \<Rightarrow> nat \<Rightarrow> 'h) option \<Rightarrow> ('k, 'v) snapshot list \<Rightarrow> nat \<Rightarrow>
   ('k, 'v, 'o, 'fs, 'h) migration_state \<Rightarrow> ('k, 'v, 'o, 'fs, 'h) migration_state" where
  "invokeHook hook snapshots batchIndex st =
     (case hook of
        None \<Rightarrow> st
      | Some h \<Rightarrow> st\<lparr>trace := trace st @ [HookFired (h snapshots batchIndex)]\<rparr>)"

text \<open>
  \<open>await writeBatch.commit(); migratedDocCount += migratableDocCount\<close>: a rejected commit
  throws before the counter is touched.
\<close>

definition commitAndCount ::
  "('k, 'v, 'o, 'fs) traversable \<Rightarrow> ('k, 'v, 'o) write_op list \<Rightarrow> nat \<Rightarrow>
   ('k, 'v, 'o, 'fs, 'h) migration_state \<Rightarrow> error option \<times> ('k, 'v, 'o, 'fs, 'h) migration_state" where
  "commitAndCount tb writeBatch migratableDocCount st =
     (case firestore_commit tb writeBatch (store st) of
        None \<Rightarrow> (Some CommitError, st\<lparr>trace := trace st @ [CommitRejected writeBatch]\<rparr>)
      | Some fs' \<Rightarrow>
          (None, st\<lparr>store := fs',
                    migratedDocCountVar := migratedDocCountVar st + migratableDocCount,
                    trace := trace st @ [Committed writeBatch]\<rparr>))"

text \<open>
  The write \<open>set\<close> queues for a snapshot that passes the predicate. The four branches are
  the source's signatures 1 to 4: a getter or a data object, without or with options.
\<close>

definition setWrite ::
  "(('k, 'v) snapshot, 'v) data_or_getter \<Rightarrow> 'o option \<Rightarrow> ('k, 'v) snapshot \<Rightarrow>
   ('k, 'v, 'o) write_op" where
  "setWrite dataOrGetData options snapshot =
     (case dataOrGetData of
        GetData getData \<Rightarrow>
          (case options of
             None \<Rightarrow> WSet (ref snapshot) (getData snapshot)
           | Some opts \<Rightarrow> WSetOptions (ref snapshot) (getData snapshot) opts)
      | Data data \<Rightarrow>
          (case options of
             None \<Rightarrow> WSet (ref snapshot) data
           | Some opts \<Rightarrow> WSetOptions (ref snapshot) data opts))"

text \<open>
  The body of \<open>snapshots.forEach\<close> in \<open>set\<close>, on the pair of the write batch and the local
  counter \<open>migratableDocCount\<close>: a snapshot that fails the predicate is skipped; for one
  that passes, the counter is incremented and the write is queued.
\<close>

definition setEach ::
  "(('k, 'v) snapshot \<Rightarrow> bool) \<Rightarrow> (('k, 'v) snapshot, 'v) data_or_getter \<Rightarrow> 'o option \<Rightarrow>
   ('k, 'v, 'o) write_op list \<times> nat \<Rightarrow> ('k, 'v) snapshot \<Rightarrow> ('k, 'v, 'o) write_op list \<times> nat" where
  "setEach predicate dataOrGetData options acc snapshot =
     (case acc of (writeBatch, migratableDocCount) \<Rightarrow>
        if \<not> predicate snapshot then (writeBatch, migratableDocCount)
        else (writeBatch @ [setWrite dataOrGetData options snapshot], migratableDocCount + 1))"

text \<open>
  The batch callback \<open>set\<close> hands to the traverser. The predicate, the getter and the hooks
  are total functions here: an exception thrown by one of them is outside the model.
\<close>

definition setCallback ::
  "('k, 'v, 'o, 'fs, 'h) batch_migrator \<Rightarrow> (('k, 'v) snapshot, 'v) data_or_getter \<Rightarrow> 'o option \<Rightarrow>
   ('k, 'v) snapshot list \<Rightarrow> nat \<Rightarrow> ('k, 'v, 'o, 'fs, 'h) migration_state \<Rightarrow>
   error option \<times> ('k, 'v, 'o, 'fs, 'h) migration_state" where
  "setCallback m dataOrGetData options snapshots batchIndex st =
     (let st1 = invokeHook (onBeforeBatchStart (registeredCallbacks m)) snapshots batchIndex st;
          built = foldl (setEach (migrationPredicate m) dataOrGetData options) ([], 0) snapshots
      in case commitAndCount (traversable (traverser m)) (fst built) (snd built) st1 of
           (Some e, st2) \<Rightarrow> (Some e, st2)
         | (None, st2) \<Rightarrow>
             (None, invokeHook (onAfterBatchComplete (registeredCallbacks m)) snapshots batchIndex st2))"

text \<open>
  \<open>set\<close>: the local counter starts at 0, the traverser runs the callback over the batches,
  and the result is assembled only when the traversal returns one. The final state is
  returned in both cases, so that what a failed call left behind can be read.
\<close>

definition migrationResult ::
  "(error + TraversalResult) \<times> ('k, 'v, 'o, 'fs, 'h) migration_state \<Rightarrow>
   (error + MigrationResult) \<times> ('k, 'v, 'o, 'fs, 'h) migration_state" where
  "migrationResult r =
     (case r of
        (Inl e, st) \<Rightarrow> (Inl e, st)
      | (Inr res, st) \<Rightarrow>
          (Inr \<lparr>migrationBatchCount = batchCount res,
                traversedDocCount = docCount res,
                migratedDocCount = migratedDocCountVar st\<rparr>, st))"

definition BatchMigrator_set ::
  "('k::linorder, 'v, 'o, 'fs, 'h) batch_migrator \<Rightarrow> (('k, 'v) snapshot, 'v) data_or_getter \<Rightarrow>
   'o option \<Rightarrow> 'fs \<Rightarrow> (error + MigrationResult) \<times> ('k, 'v, 'o, 'fs, 'h) migration_state" where
  "BatchMigrator_set m dataOrGetData options fs =
     migrationResult
       (traverse (traverser m) (setCallback m dataOrGetData options)
          \<lparr>store = fs, migratedDocCountVar = 0, trace = []\<rparr>)"

text \<open>
  \<open>update\<close>: \<open>argCount\<close> counts the arguments that are not \<open>undefined\<close>; the three branches of
  the \<open>forEach\<close> body are the source's signatures 1 to 3. The callback ignores the batch
  index and calls no hook.
\<close>

fun isDefined :: "('s, 'v) jsarg \<Rightarrow> bool" where
  "isDefined Undefined = False"
| "isDefined _ = True"

definition argCount :: "('s, 'v) jsarg \<Rightarrow> ('s, 'v) jsarg \<Rightarrow> nat" where
  "argCount arg1 arg2 = length (filter isDefined [arg1, arg2])"

definition updateEach ::
  "(('k, 'v) snapshot \<Rightarrow> bool) \<Rightarrow> (('k, 'v) snapshot, 'v) jsarg \<Rightarrow> (('k, 'v) snapshot, 'v) jsarg \<Rightarrow>
   ('k, 'v, 'o) write_op list \<times> nat \<Rightarrow> ('k, 'v) snapshot \<Rightarrow> ('k, 'v, 'o) write_op list \<times> nat" where
  "updateEach predicate arg1 arg2 acc snapshot =
     (case acc of (writeBatch, migratableDocCount) \<Rightarrow>
        (case arg1 of
           Function getUpdateData \<Rightarrow>
             if predicate snapshot
             then (writeBatch @ [WUpdate (ref snapshot) (Value (getUpdateData snapshot))],
                   migratableDocCount + 1)
             else (writeBatch, migratableDocCount)
         | _ \<Rightarrow>
             if argCount arg1 arg2 = 1
             then (if predicate snapshot
                   then (writeBatch @ [WUpdate (ref snapshot) arg1], migratableDocCount + 1)
                   else (writeBatch, migratableDocCount))
             else (if predicate snapshot
                   then (writeBatch @ [WUpdateField (ref snapshot) arg1 arg2], migratableDocCount + 1)
                   else (writeBatch, migratableDocCount))))"

definition updateCallback ::
  "('k, 'v, 'o, 'fs, 'h) batch_migrator \<Rightarrow> (('k, 'v) snapshot, 'v) jsarg \<Rightarrow>
   (('k, 'v) snapshot, 'v) jsarg \<Rightarrow>
   ('k, 'v) snapshot list \<Rightarrow> nat \<Rightarrow> ('k, 'v, 'o, 'fs, 'h) migration_state \<Rightarrow>
   error option \<times> ('k, 'v, 'o, 'fs, 'h) migration_state" where
  "updateCallback m arg1 arg2 snapshots batchIndex st =
     (let built = foldl (updateEach (migrationPredicate m) arg1 arg2) ([], 0) snapshots
      in commitAndCount (traversable (traverser m)) (fst built) (snd built) st)"

definition BatchMigrator_update ::
  "('k::linorder, 'v, 'o, 'fs, 'h) batch_migrator \<Rightarrow> (('k, 'v) snapshot, 'v) jsarg \<Rightarrow>
   (('k, 'v) snapshot, 'v) jsarg \<Rightarrow> 'fs \<Rightarrow>
   (error + MigrationResult) \<times> ('k, 'v, 'o, 'fs, 'h) migration_state" where
  "BatchMigrator_update m arg1 arg2 fs =
     migrationResult
       (traverse (traverser m) (updateCallback m arg1 arg2)
          \<lparr>store = fs, migratedDocCountVar = 0, trace = []\<rparr>)"

section \<open>Reading a trace\<close>

text \<open>
  The write batches a trace holds: every batch a commit was attempted for, the batches
  that were committed, the batches whose commit was rejected; and what the hooks that
  fired computed.
\<close>

fun commitAttempts :: "('h, 'w) event list \<Rightarrow> 'w list list" where
  "commitAttempts [] = []"
| "commitAttempts (HookFired h # es) = commitAttempts es"
| "commitAttempts (Committed ws # es) = ws # commitAttempts es"
| "commitAttempts (CommitRejected ws # es) = ws # commitAttempts es"

fun committedWrites :: "('h, 'w) event list \<Rightarrow> 'w list list" where
  "committedWrites [] = []"
| "committedWrites (Committed ws # es) = ws # committedWrites es"
| "committedWrites (e # es) = committedWrites es"

fun rejectedWrites :: "('h, 'w) event list \<Rightarrow> 'w list list" where
  "rejectedWrites [] = []"
| "rejectedWrites (CommitRejected ws # es) = ws # rejectedWrites es"
| "rejectedWrites (e # es) = rejectedWrites es"

fun hooksFired :: "('h, 'w) event list \<Rightarrow> 'h list" where
  "hooksFired [] = []"
| "hooksFired (HookFired h # es) = h # hooksFired es"
| "hooksFired (e # es) = hooksFired es"

text \<open>
  The store after a sequence of write batches has been committed one after the other;
  \<open>None\<close> when one of the commits is rejected.
\<close>

fun replay :: "('w list \<Rightarrow> 'fs \<Rightarrow> 'fs option) \<Rightarrow> 'fs \<Rightarrow> 'w list list \<Rightarrow> 'fs option" where
  "replay c fs [] = Some fs"
| "replay c fs (ws # wss) = (case c ws fs of None \<Rightarrow> None | Some fs' \<Rightarrow> replay c fs' wss)"

text \<open>
  The write \<open>update\<close> queues for a snapshot that passes the predicate: what the three
  branches of \<open>updateEach\<close> append.
\<close>

definition updateWrite ::
  "(('k, 'v) snapshot, 'v) jsarg \<Rightarrow> (('k, 'v) snapshot, 'v) jsarg \<Rightarrow> ('k, 'v) snapshot \<Rightarrow>
   ('k, 'v, 'o) write_op" where
  "updateWrite arg1 arg2 snapshot =
     (case arg1 of
        Function getUpdateData \<Rightarrow> WUpdate (ref snapshot) (Value (getUpdateData snapshot))
      | _ \<Rightarrow>
          if argCount arg1 arg2 = 1 then WUpdate (ref snapshot) arg1
          else WUpdateField (ref snapshot) arg1 arg2)"

section \<open>The traversal as a sequence of batches\<close>

text \<open>
  The batches the sequential traverser hands to the callback as long as no callback
  fails: the loop of \<open>traverse_from\<close> without the callback.
\<close>

function pagesFrom ::
  "('k::linorder, 'v, 'o, 'fs) traverser \<Rightarrow> ('k, 'v) snapshot option \<Rightarrow> nat \<Rightarrow> nat \<Rightarrow>
   ('k, 'v) snapshot list list" where
  "pagesFrom t cursor bc dc =
     (let page = fetchPage (traversable t) cursor (nat (batchSize (traversalConfig t))) in
      if page = [] then []
      else if limitReached (traversalConfig t) (dc + length page)
              \<or> shouldExitEarly (exitEarlyPredicates t) page bc
      then [page]
      else page # pagesFrom t (Some (last page)) (bc + 1) (dc + length page))"
  by pat_completeness auto
termination
  apply (relation "measure (\<lambda>(t, cursor, bc, dc). length (startAfter (traversable t) cursor))")
   apply simp
  apply (simp add: startAfter_last_less)
  done

declare pagesFrom.simps [simp del]

definition batches :: "('k::linorder, 'v, 'o, 'fs) traverser \<Rightarrow> ('k, 'v) snapshot list list" where
  "batches t = pagesFrom t None 0 0"

text \<open>
  A callback run over a given sequence of batches, each awaited before the next, stopping
  at the first failure.
\<close>

fun runBatches ::
  "(('k, 'v) snapshot list \<Rightarrow> nat \<Rightarrow> 's \<Rightarrow> error option \<times> 's) \<Rightarrow> ('k, 'v) snapshot list list \<Rightarrow>
   nat \<Rightarrow> nat \<Rightarrow> 's \<Rightarrow> (error + TraversalResult) \<times> 's" where
  "runBatches callback [] bc dc st = (Inr \<lparr>batchCount = bc, docCount = dc\<rparr>, st)"
| "runBatches callback (page # pages) bc dc st =
     (case callback page bc st of
        (Some e, st') \<Rightarrow> (Inl e, st')
      | (None, st') \<Rightarrow> runBatches callback pages (bc + 1) (dc + length page) st')"

lemma traverse_from_runBatches:
  "traverse_from t callback cursor bc dc st =
     runBatches callback (pagesFrom t cursor bc dc) bc dc st"
proof (induction t callback cursor bc dc st rule: traverse_from.induct)
  case (1 t callback cursor bc dc st)
  let ?page = "fetchPage (traversable t) cursor (nat (batchSize (traversalConfig t)))"
  show ?case
  proof (cases "?page = []")
    case True
    then show ?thesis
      by (simp add: traverse_from.simps[of t callback cursor bc dc st]
                    pagesFrom.simps[of t cursor bc dc])
  next
    case False
    obtain r st' where cb: "callback ?page bc st = (r, st')"
      by (cases "callback ?page bc st")
    show ?thesis
    proof (cases r)
      case (Some e)
      with False cb show ?thesis
        by (simp add: traverse_from.simps[of t callback cursor bc dc st]
                      pagesFrom.simps[of t cursor bc dc] Let_def)
    next
      case None
      show ?thesis
      proof (cases "limitReached (traversalConfig t) (dc + length ?page)
                    \<or> shouldExitEarly (exitEarlyPredicates t) ?page bc")
        case True
        with False cb None show ?thesis
          by (simp add: traverse_from.simps[of t callback cursor bc dc st]
                        pagesFrom.simps[of t cursor bc dc] Let_def)
      next
        case stop: False
        have "traverse_from t callback (Some (last ?page)) (bc + 1) (dc + length ?page) st' =
              runBatches callback (pagesFrom t (Some (last ?page)) (bc + 1) (dc + length ?page))
                (bc + 1) (dc + length ?page) st'"
          using "1.IH"[OF refl False cb[symmetric] None stop] .
        with False cb None stop show ?thesis
          by (simp add: traverse_from.simps[of t callback cursor bc dc st]
                        pagesFrom.simps[of t cursor bc dc] Let_def)
      qed
    qed
  qed
qed

lemma traverse_runBatches: "traverse t callback st = runBatches callback (batches t) 0 0 st"
  by (simp add: traverse_def batches_def traverse_from_runBatches)

section \<open>The per-batch algorithm of the migrator\<close>

text \<open>
  Both callbacks follow one pattern: an optional hook, one write batch holding the write
  of every snapshot that passes the predicate, one commit, the counter, an optional
  hook. \<open>batchAlgorithm\<close> is that pattern; the lemmas below show that \<open>setCallback\<close> is
  the pattern with the registered hooks and \<open>updateCallback\<close> the pattern with no hook.
\<close>

definition batchAlgorithm ::
  "('k, 'v, 'o, 'fs) traversable \<Rightarrow> (('k, 'v) snapshot \<Rightarrow> bool) \<Rightarrow>
   (('k, 'v) snapshot \<Rightarrow> ('k, 'v, 'o) write_op) \<Rightarrow>
   (('k, 'v) snapshot list \<Rightarrow> nat \<Rightarrow> 'h) option \<Rightarrow> (('k, 'v) snapshot list \<Rightarrow> nat \<Rightarrow> 'h) option \<Rightarrow>
   ('k, 'v) snapshot list \<Rightarrow> nat \<Rightarrow> ('k, 'v, 'o, 'fs, 'h) migration_state \<Rightarrow>
   error option \<times> ('k, 'v, 'o, 'fs, 'h) migration_state" where
  "batchAlgorithm tb p w before after snapshots batchIndex st =
     (case commitAndCount tb (map w (filter p snapshots)) (length (filter p snapshots))
             (invokeHook before snapshots batchIndex st) of
        (Some e, st2) \<Rightarrow> (Some e, st2)
      | (None, st2) \<Rightarrow> (None, invokeHook after snapshots batchIndex st2))"

lemma setEach_foldl:
  "foldl (setEach p d opts) (wb, n) snaps =
     (wb @ map (setWrite d opts) (filter p snaps), n + length (filter p snaps))"
  by (induction snaps arbitrary: wb n) (simp_all add: setEach_def)

lemma updateEach_eq:
  "updateEach p a1 a2 (wb, n) s =
     (if p s then (wb @ [updateWrite a1 a2 s], n + 1) else (wb, n))"
  by (cases a1) (simp_all add: updateEach_def updateWrite_def)

lemma updateEach_foldl:
  "foldl (updateEach p a1 a2) (wb, n) snaps =
     (wb @ map (updateWrite a1 a2) (filter p snaps), n + length (filter p snaps))"
  by (induction snaps arbitrary: wb n) (simp_all add: updateEach_eq)

lemma setCallback_batchAlgorithm:
  "setCallback m d opts =
     batchAlgorithm (traversable (traverser m)) (migrationPredicate m) (setWrite d opts)
       (onBeforeBatchStart (registeredCallbacks m)) (onAfterBatchComplete (registeredCallbacks m))"
  by (intro ext) (simp add: setCallback_def batchAlgorithm_def Let_def setEach_foldl)

lemma updateCallback_batchAlgorithm:
  "updateCallback m a1 a2 =
     batchAlgorithm (traversable (traverser m)) (migrationPredicate m) (updateWrite a1 a2) None None"
  by (intro ext)
     (simp add: updateCallback_def batchAlgorithm_def Let_def updateEach_foldl invokeHook_def
           split: prod.splits option.splits)

section \<open>What a run of the per-batch algorithm leaves behind\<close>

lemma commitAttempts_append [simp]:
  "commitAttempts (xs @ ys) = commitAttempts xs @ commitAttempts ys"
  by (induction xs rule: commitAttempts.induct) simp_all

lemma committedWrites_append [simp]:
  "committedWrites (xs @ ys) = committedWrites xs @ committedWrites ys"
  by (induction xs rule: committedWrites.induct) simp_all

lemma rejectedWrites_append [simp]:
  "rejectedWrites (xs @ ys) = rejectedWrites xs @ rejectedWrites ys"
  by (induction xs rule: rejectedWrites.induct) simp_all

lemma hooksFired_append [simp]:
  "hooksFired (xs @ ys) = hooksFired xs @ hooksFired ys"
  by (induction xs rule: hooksFired.induct) simp_all

lemma invokeHook_fields [simp]:
  "store (invokeHook h snaps i st) = store st"
  "migratedDocCountVar (invokeHook h snaps i st) = migratedDocCountVar st"
  "commitAttempts (trace (invokeHook h snaps i st)) = commitAttempts (trace st)"
  "committedWrites (trace (invokeHook h snaps i st)) = committedWrites (trace st)"
  "rejectedWrites (trace (invokeHook h snaps i st)) = rejectedWrites (trace st)"
  by (simp_all add: invokeHook_def split: option.splits)

lemma invokeHook_trace:
  "\<exists>evs. trace (invokeHook h snaps i st) = trace st @ evs
         \<and> committedWrites evs = [] \<and> rejectedWrites evs = [] \<and> commitAttempts evs = []"
  by (cases h) (simp_all add: invokeHook_def)

lemma batchAlgorithm_ok:
  assumes "batchAlgorithm tb p w before after snaps i st = (None, st')"
  shows "firestore_commit tb (map w (filter p snaps)) (store st) = Some (store st')"
    and "migratedDocCountVar st' = migratedDocCountVar st + length (filter p snaps)"
    and "committedWrites (trace st') = committedWrites (trace st) @ [map w (filter p snaps)]"
    and "rejectedWrites (trace st') = rejectedWrites (trace st)"
    and "commitAttempts (trace st') = commitAttempts (trace st) @ [map w (filter p snaps)]"
  using assms
  by (auto simp: batchAlgorithm_def commitAndCount_def split: option.splits)

lemma batchAlgorithm_ok_trace:
  assumes "batchAlgorithm tb p w before after snaps i st = (None, st')"
  shows "\<exists>evs. trace st' = trace st @ evs
           \<and> committedWrites evs = [map w (filter p snaps)] \<and> rejectedWrites evs = []"
proof -
  obtain evs1 where evs1: "trace (invokeHook before snaps i st) = trace st @ evs1"
    "committedWrites evs1 = []" "rejectedWrites evs1 = []"
    using invokeHook_trace by blast
  from assms obtain fs' where c: "firestore_commit tb (map w (filter p snaps)) (store st) = Some fs'"
    by (auto simp: batchAlgorithm_def commitAndCount_def split: option.splits)
  define st2 where "st2 = (invokeHook before snaps i st)
       \<lparr>store := fs',
        migratedDocCountVar := migratedDocCountVar st + length (filter p snaps),
        trace := trace (invokeHook before snaps i st) @ [Committed (map w (filter p snaps))]\<rparr>"
  have st': "st' = invokeHook after snaps i st2"
    using assms c by (simp add: batchAlgorithm_def commitAndCount_def st2_def)
  have st2: "trace st2 = trace (invokeHook before snaps i st) @ [Committed (map w (filter p snaps))]"
    by (simp add: st2_def)
  obtain evs2 where evs2: "trace (invokeHook after snaps i st2) = trace st2 @ evs2"
    "committedWrites evs2 = []" "rejectedWrites evs2 = []"
    using invokeHook_trace by blast
  have "trace st' = trace st @ (evs1 @ [Committed (map w (filter p snaps))] @ evs2)"
    using evs1(1) evs2(1) st2 st' by simp
  moreover have "committedWrites (evs1 @ [Committed (map w (filter p snaps))] @ evs2)
                 = [map w (filter p snaps)]"
    using evs1(2) evs2(2) by simp
  moreover have "rejectedWrites (evs1 @ [Committed (map w (filter p snaps))] @ evs2) = []"
    using evs1(3) evs2(3) by simp
  ultimately show ?thesis by blast
qed

lemma batchAlgorithm_fail:
  assumes "batchAlgorithm tb p w before after snaps i st = (Some e, st')"
  shows "e = CommitError"
    and "firestore_commit tb (map w (filter p snaps)) (store st') = None"
    and "store st' = store st"
    and "migratedDocCountVar st' = migratedDocCountVar st"
    and "\<exists>evs. trace st' = trace st @ evs @ [CommitRejected (map w (filter p snaps))]
           \<and> committedWrites evs = [] \<and> rejectedWrites evs = []"
proof -
  obtain evs where evs: "trace (invokeHook before snaps i st) = trace st @ evs"
    "committedWrites evs = []" "rejectedWrites evs = []"
    using invokeHook_trace by blast
  from assms show "e = CommitError"
    and "firestore_commit tb (map w (filter p snaps)) (store st') = None"
    and "store st' = store st"
    and "migratedDocCountVar st' = migratedDocCountVar st"
    by (auto simp: batchAlgorithm_def commitAndCount_def split: option.splits)
  from assms have "trace st' = trace (invokeHook before snaps i st)
                      @ [CommitRejected (map w (filter p snaps))]"
    by (auto simp: batchAlgorithm_def commitAndCount_def split: option.splits)
  with evs show "\<exists>evs. trace st' = trace st @ evs @ [CommitRejected (map w (filter p snaps))]
           \<and> committedWrites evs = [] \<and> rejectedWrites evs = []"
    by auto
qed

lemma run_ok:
  assumes "runBatches (batchAlgorithm tb p w before after) bs bc dc st = (Inr res, st')"
  shows "res = \<lparr>batchCount = bc + length bs, docCount = dc + sum_list (map length bs)\<rparr>
       \<and> migratedDocCountVar st' = migratedDocCountVar st + sum_list (map (\<lambda>b. length (filter p b)) bs)
       \<and> committedWrites (trace st') = committedWrites (trace st) @ map (\<lambda>b. map w (filter p b)) bs
       \<and> rejectedWrites (trace st') = rejectedWrites (trace st)
       \<and> replay (firestore_commit tb) (store st) (map (\<lambda>b. map w (filter p b)) bs) = Some (store st')"
  using assms
proof (induction bs arbitrary: bc dc st)
  case Nil
  then show ?case by simp
next
  case (Cons b bs)
  obtain r st1 where cb: "batchAlgorithm tb p w before after b bc st = (r, st1)"
    by (cases "batchAlgorithm tb p w before after b bc st")
  with Cons.prems have r: "r = None"
    and run: "runBatches (batchAlgorithm tb p w before after) bs (bc + 1) (dc + length b) st1
              = (Inr res, st')"
    by (auto split: option.splits)
  note ok = batchAlgorithm_ok[OF cb[unfolded r]]
  from Cons.IH[OF run] ok show ?case by simp
qed

lemma run_fail:
  assumes "runBatches (batchAlgorithm tb p w before after) bs bc dc st = (Inl e, st')"
  shows "e = CommitError \<and>
         (\<exists>k evs. k < length bs
            \<and> trace st' = trace st @ evs @ [CommitRejected (map w (filter p (bs ! k)))]
            \<and> rejectedWrites evs = []
            \<and> committedWrites evs = map (\<lambda>b. map w (filter p b)) (take k bs)
            \<and> replay (firestore_commit tb) (store st) (map (\<lambda>b. map w (filter p b)) (take k bs))
                = Some (store st')
            \<and> firestore_commit tb (map w (filter p (bs ! k))) (store st') = None
            \<and> migratedDocCountVar st'
                = migratedDocCountVar st + sum_list (map (\<lambda>b. length (filter p b)) (take k bs)))"
  using assms
proof (induction bs arbitrary: bc dc st)
  case Nil
  then show ?case by simp
next
  case (Cons b bs)
  obtain r st1 where cb: "batchAlgorithm tb p w before after b bc st = (r, st1)"
    by (cases "batchAlgorithm tb p w before after b bc st")
  show ?case
  proof (cases r)
    case (Some e')
    with Cons.prems cb have eq: "e' = e" "st1 = st'" by simp_all
    note f = batchAlgorithm_fail[OF cb[unfolded Some eq]]
    from f(5) obtain evs where
      "trace st' = trace st @ evs @ [CommitRejected (map w (filter p b))]"
      "committedWrites evs = []" "rejectedWrites evs = []" by blast
    with f(1-4) show ?thesis
      by (intro conjI exI[of _ 0] exI[of _ evs]) simp_all
  next
    case None
    with Cons.prems cb
    have run: "runBatches (batchAlgorithm tb p w before after) bs (bc + 1) (dc + length b) st1
              = (Inl e, st')" by simp
    note ok = batchAlgorithm_ok[OF cb[unfolded None]]
    from Cons.IH[OF run] obtain k evs where e: "e = CommitError" and k: "k < length bs"
      and tr: "trace st' = trace st1 @ evs @ [CommitRejected (map w (filter p (bs ! k)))]"
      and rej: "rejectedWrites evs = []"
      and com: "committedWrites evs = map (\<lambda>b. map w (filter p b)) (take k bs)"
      and rep: "replay (firestore_commit tb) (store st1) (map (\<lambda>b. map w (filter p b)) (take k bs))
                = Some (store st')"
      and last: "firestore_commit tb (map w (filter p (bs ! k))) (store st') = None"
      and cnt: "migratedDocCountVar st'
                = migratedDocCountVar st1 + sum_list (map (\<lambda>b. length (filter p b)) (take k bs))"
      by blast
    obtain evs1 where tr1: "trace st1 = trace st @ evs1"
      and com1: "committedWrites evs1 = [map w (filter p b)]" and rej1: "rejectedWrites evs1 = []"
      using batchAlgorithm_ok_trace[OF cb[unfolded None]] by blast
    have "Suc k < length (b # bs)" using k by simp
    moreover have "trace st' = trace st @ (evs1 @ evs)
                     @ [CommitRejected (map w (filter p ((b # bs) ! Suc k)))]"
      using tr tr1 by simp
    moreover have "rejectedWrites (evs1 @ evs) = []" using rej rej1 by simp
    moreover have "committedWrites (evs1 @ evs) = map (\<lambda>b. map w (filter p b)) (take (Suc k) (b # bs))"
      using com com1 by simp
    moreover have "replay (firestore_commit tb) (store st)
                     (map (\<lambda>b. map w (filter p b)) (take (Suc k) (b # bs))) = Some (store st')"
      using rep ok(1) by simp
    moreover have "firestore_commit tb (map w (filter p ((b # bs) ! Suc k))) (store st') = None"
      using last by simp
    moreover have "migratedDocCountVar st' = migratedDocCountVar st
                     + sum_list (map (\<lambda>b. length (filter p b)) (take (Suc k) (b # bs)))"
      using cnt ok(2) by simp
    ultimately show ?thesis using e by blast
  qed
qed

section \<open>An example collection and store\<close>

text \<open>
  A store that keeps every write it has committed, in order, and rejects a write batch
  that touches a locked document; a collection of five documents, two of them pending;
  a migrator over it with both hooks registered.
\<close>

definition lockedCommit ::
  "'k list \<Rightarrow> ('k, 'v, 'o) write_op list \<Rightarrow> ('k, 'v, 'o) write_op list \<Rightarrow>
   ('k, 'v, 'o) write_op list option" where
  "lockedCommit locked ws fs =
     (if list_ex (\<lambda>w. write_ref w \<in> set locked) ws then None else Some (fs @ ws))"

definition exampleDocs :: "(nat, string) snapshot list" where
  "exampleDocs =
     [\<lparr>ref = 3, sdata = ''done''\<rparr>, \<lparr>ref = 1, sdata = ''pending''\<rparr>, \<lparr>ref = 5, sdata = ''done''\<rparr>,
      \<lparr>ref = 2, sdata = ''done''\<rparr>, \<lparr>ref = 4, sdata = ''pending''\<rparr>]"

definition exampleConfig :: "int \<Rightarrow> traversal_config" where
  "exampleConfig b =
     \<lparr>batchSize = b, delayBetweenBatchesMs = 0, maxDocCount = None, maxConcurrentBatchCount = None\<rparr>"

definition exampleTraverser ::
  "nat list \<Rightarrow> int \<Rightarrow> (nat, string, bool, (nat, string, bool) write_op list) traverser" where
  "exampleTraverser locked b =
     \<lparr>traversable = \<lparr>docs = exampleDocs, firestore_commit = lockedCommit locked\<rparr>,
      exitEarlyPredicates = [],
      traversalConfig = exampleConfig b\<rparr>"

definition isPending :: "(nat, string) snapshot \<Rightarrow> bool" where
  "isPending s = (sdata s = ''pending'')"

definition exampleMigrator ::
  "nat list \<Rightarrow> int \<Rightarrow>
   (nat, string, bool, (nat, string, bool) write_op list, string \<times> nat) batch_migrator" where
  "exampleMigrator locked b =
     \<lparr>traverser = exampleTraverser locked b,
      migrationPredicate = isPending,
      registeredCallbacks =
        \<lparr>onBeforeBatchStart = Some (\<lambda>snapshots i. (''before'', i)),
         onAfterBatchComplete = Some (\<lambda>snapshots i. (''after'', i))\<rparr>\<rparr>"


section \<open>One write batch per batch\<close>

lemma write_ref_setWrite [simp]: "write_ref (setWrite d opts s) = ref s"
  by (simp add: setWrite_def split: data_or_getter.splits option.splits)

lemma write_ref_updateWrite [simp]: "write_ref (updateWrite a1 a2 s) = ref s"
  by (simp add: updateWrite_def split: jsarg.splits)

lemma batchAlgorithm_store:
  "store (snd (batchAlgorithm tb p w before after snaps i st)) =
     (case firestore_commit tb (map w (filter p snaps)) (store st) of
        None \<Rightarrow> store st | Some fs' \<Rightarrow> fs')"
  by (simp add: batchAlgorithm_def commitAndCount_def split: option.splits)

lemma batchAlgorithm_attempts:
  "commitAttempts (trace (snd (batchAlgorithm tb p w before after snaps i st))) =
     commitAttempts (trace st) @ [map w (filter p snaps)]"
  by (simp add: batchAlgorithm_def commitAndCount_def split: option.splits)

text \<open>
  C3. For every batch the callback of \<open>set\<close> and the callback of \<open>update\<close> is invoked on,
  whatever the state before: the callback attempts exactly one commit; the write batch
  of that commit holds one write for each snapshot of the batch that satisfies the
  migration predicate, in order, and no other write; and the store afterwards is either
  the store that one commit returned, or, when the commit was rejected, the store as it
  was. (Proved for \<open>BatchMigrator\<close>; the commit's own atomicity is the store's.)
\<close>

theorem one_atomic_write_per_batch:
  "commitAttempts (trace (snd (setCallback m d opts snaps i st))) =
     commitAttempts (trace st) @ [map (setWrite d opts) (filter (migrationPredicate m) snaps)]
   \<and> map write_ref (map (setWrite d opts) (filter (migrationPredicate m) snaps)) =
       map ref (filter (migrationPredicate m) snaps)
   \<and> store (snd (setCallback m d opts snaps i st)) =
       (case firestore_commit (traversable (traverser m))
               (map (setWrite d opts) (filter (migrationPredicate m) snaps)) (store st) of
          None \<Rightarrow> store st | Some fs' \<Rightarrow> fs')
   \<and> commitAttempts (trace (snd (updateCallback m a1 a2 snaps i st))) =
       commitAttempts (trace st) @ [map (updateWrite a1 a2) (filter (migrationPredicate m) snaps)]
   \<and> map write_ref (map (updateWrite a1 a2) (filter (migrationPredicate m) snaps)) =
       map ref (filter (migrationPredicate m) snaps)
   \<and> store (snd (updateCallback m a1 a2 snaps i st)) =
       (case firestore_commit (traversable (traverser m))
               (map (updateWrite a1 a2) (filter (migrationPredicate m) snaps)) (store st) of
          None \<Rightarrow> store st | Some fs' \<Rightarrow> fs')"
  by (simp add: setCallback_batchAlgorithm updateCallback_batchAlgorithm batchAlgorithm_store
        batchAlgorithm_attempts comp_def)

text \<open>
  The scenario of the spec: a batch of five records of which two are pending gives one
  write batch with exactly two writes; with document 4 locked the commit is rejected
  and neither write is applied.
\<close>

theorem one_atomic_write_per_batch_witness:
  "commitAttempts (trace (snd (setCallback (exampleMigrator [] 5) (Data ''migrated'') None
       exampleDocs 0 \<lparr>store = [], migratedDocCountVar = 0, trace = []\<rparr>))) =
     [[WSet 1 ''migrated'', WSet 4 ''migrated'']]
   \<and> store (snd (setCallback (exampleMigrator [] 5) (Data ''migrated'') None
       exampleDocs 0 \<lparr>store = [], migratedDocCountVar = 0, trace = []\<rparr>)) =
     [WSet 1 ''migrated'', WSet 4 ''migrated'']
   \<and> store (snd (setCallback (exampleMigrator [4] 5) (Data ''migrated'') None
       exampleDocs 0 \<lparr>store = [], migratedDocCountVar = 0, trace = []\<rparr>)) = []"
  using one_atomic_write_per_batch[of "exampleMigrator [] 5" "Data ''migrated''" None
          exampleDocs 0 "\<lparr>store = [], migratedDocCountVar = 0, trace = []\<rparr>" Undefined Undefined]
        one_atomic_write_per_batch[of "exampleMigrator [4] 5" "Data ''migrated''" None
          exampleDocs 0 "\<lparr>store = [], migratedDocCountVar = 0, trace = []\<rparr>" Undefined Undefined]
  by (simp add: exampleDocs_def exampleMigrator_def exampleTraverser_def isPending_def
        setWrite_def lockedCommit_def)

section \<open>Migration calls as runs of the per-batch algorithm\<close>

lemma migrationResult_snd [simp]: "snd (migrationResult r) = snd r"
  by (cases r) (simp add: migrationResult_def split: sum.splits)



lemma migrationResult_fst_Inl:
  "fst (migrationResult r) = Inl e \<longleftrightarrow> fst r = Inl e"
  by (cases r) (auto simp: migrationResult_def split: sum.splits)

lemma BatchMigrator_set_run:
  "BatchMigrator_set m d opts fs =
     migrationResult
       (runBatches
          (batchAlgorithm (traversable (traverser m)) (migrationPredicate m) (setWrite d opts)
             (onBeforeBatchStart (registeredCallbacks m)) (onAfterBatchComplete (registeredCallbacks m)))
          (batches (traverser m)) 0 0 \<lparr>store = fs, migratedDocCountVar = 0, trace = []\<rparr>)"
  by (simp add: BatchMigrator_set_def traverse_runBatches setCallback_batchAlgorithm)

lemma BatchMigrator_update_run:
  "BatchMigrator_update m a1 a2 fs =
     migrationResult
       (runBatches
          (batchAlgorithm (traversable (traverser m)) (migrationPredicate m) (updateWrite a1 a2)
             None None)
          (batches (traverser m)) 0 0 \<lparr>store = fs, migratedDocCountVar = 0, trace = []\<rparr>)"
  by (simp add: BatchMigrator_update_def traverse_runBatches updateCallback_batchAlgorithm)


lemma run_counter:
  assumes "runBatches (batchAlgorithm tb p w before after) bs bc dc
             \<lparr>store = fs, migratedDocCountVar = 0, trace = []\<rparr> = (out, st)"
  shows "migratedDocCountVar st = sum_list (map length (committedWrites (trace st)))"
proof (cases out)
  case (Inr res)
  from run_ok[OF assms[unfolded Inr]] show ?thesis
    by (simp add: comp_def)
next
  case (Inl e)
  from run_fail[OF assms[unfolded Inl]] obtain k evs where
    "trace st = evs @ [CommitRejected (map w (filter p (bs ! k)))]"
    "committedWrites evs = map (\<lambda>b. map w (filter p b)) (take k bs)"
    "migratedDocCountVar st = sum_list (map (\<lambda>b. length (filter p b)) (take k bs))"
    by auto
  then show ?thesis by (simp add: comp_def)
qed

lemma default_predicate:
  "new_BatchMigrator t None = Inr m \<Longrightarrow> migrationPredicate m s"
  by (auto simp: new_BatchMigrator_def split: option.splits)

lemma runBatches_error:
  "fst (runBatches cb bs bc dc st) = Inl e \<Longrightarrow> \<exists>page i s s'. cb page i s = (Some e, s')"
proof (induction bs arbitrary: bc dc st)
  case Nil
  then show ?case by simp
next
  case (Cons b bs)
  obtain x st1 where cb: "cb b bc st = (x, st1)" by (cases "cb b bc st")
  show ?case
  proof (cases x)
    case None
    with Cons.prems cb have "fst (runBatches cb bs (bc + 1) (dc + length b) st1) = Inl e" by simp
    then show ?thesis by (rule Cons.IH)
  next
    case (Some e')
    with Cons.prems cb have "e' = e" by simp
    with cb Some show ?thesis by blast
  qed
qed

lemma batchAlgorithm_no_config_error:
  "batchAlgorithm tb p w before after page i s \<noteq> (Some ConfigurationError, s')"
  using batchAlgorithm_fail(1)[of tb p w before after page i s ConfigurationError s'] by auto

lemma validateConfig_invalid:
  assumes "batchSize c \<le> 0 \<or> delayBetweenBatchesMs c < 0
         \<or> (\<exists>k. maxConcurrentBatchCount c = Some k \<and> k \<le> 0)"
  shows "validateConfig c = Some ConfigurationError"
  using assms by (auto simp: validateConfig_def)

section \<open>The example, evaluated\<close>

lemma example_batches_2:
  "batches (exampleTraverser locked 2) =
     [[\<lparr>ref = 1, sdata = ''pending''\<rparr>, \<lparr>ref = 2, sdata = ''done''\<rparr>],
      [\<lparr>ref = 3, sdata = ''done''\<rparr>, \<lparr>ref = 4, sdata = ''pending''\<rparr>],
      [\<lparr>ref = 5, sdata = ''done''\<rparr>]]"
  by code_simp

lemma exampleMigrator_fields:
  "traverser (exampleMigrator locked b) = exampleTraverser locked b"
  "migrationPredicate (exampleMigrator locked b) = isPending"
  "onBeforeBatchStart (registeredCallbacks (exampleMigrator locked b)) = Some (\<lambda>snapshots i. (''before'', i))"
  "onAfterBatchComplete (registeredCallbacks (exampleMigrator locked b)) = Some (\<lambda>snapshots i. (''after'', i))"
  "firestore_commit (traversable (exampleTraverser locked b)) = lockedCommit locked"
  by (simp_all add: exampleMigrator_def exampleTraverser_def)

lemmas example_eval =
  BatchMigrator_set_run BatchMigrator_update_run migrationResult_def exampleMigrator_fields
  example_batches_2 batchAlgorithm_def commitAndCount_def invokeHook_def lockedCommit_def
  setWrite_def updateWrite_def argCount_def isPending_def

lemma example_set_fail:
  "BatchMigrator_set (exampleMigrator [4] 2) (Data ''migrated'') None [] =
    (Inl CommitError,
     \<lparr>store = [WSet 1 ''migrated''], migratedDocCountVar = 1,
      trace = [HookFired (''before'', 0), Committed [WSet 1 ''migrated''],
               HookFired (''after'', 0), HookFired (''before'', 1),
               CommitRejected [WSet 4 ''migrated'']]\<rparr>)"
  by (simp add: example_eval)


section \<open>Predicates and hooks of a new migrator\<close>

text \<open>
  C2, as the code has it. The claim says that \<open>m.withPredicate(p1).withPredicate(p2)\<close> migrates a
  record exactly when both predicates accept it. \<open>withPredicate\<close> constructs the new
  migrator from the traverser and the new predicate alone, so the second predicate
  replaces the first: on the example collection, with \<open>p1\<close> "is pending" and \<open>p2\<close> "the
  reference is at most 2", the composed migrator accepts documents 1 and 2 and migrates
  two records, although only document 1 satisfies both predicates; with the two calls in
  the other order it accepts documents 1 and 4.
\<close>

theorem withPredicate_replaces_predicate:
  "(case withPredicate (exampleMigrator [] 5) isPending of
      Inl e \<Rightarrow> False
    | Inr m1 \<Rightarrow>
        (case withPredicate m1 (\<lambda>s. ref s \<le> 2) of
           Inl e \<Rightarrow> False
         | Inr m2 \<Rightarrow>
             map ref (filter (migrationPredicate m2) (orderedDocs (traversable (traverser m2))))
               = [1, 2]
             \<and> map ref (filter (\<lambda>s. isPending s \<and> ref s \<le> 2)
                   (orderedDocs (traversable (traverser m2)))) = [1]
             \<and> fst (BatchMigrator_set m2 (Data ''migrated'') None []) =
                 Inr \<lparr>migrationBatchCount = 1, traversedDocCount = 5, migratedDocCount = 2\<rparr>))
   \<and> (case withPredicate (exampleMigrator [] 5) (\<lambda>s. ref s \<le> 2) of
        Inl e \<Rightarrow> False
      | Inr m1 \<Rightarrow>
          (case withPredicate m1 isPending of
             Inl e \<Rightarrow> False
           | Inr m2 \<Rightarrow>
               map ref (filter (migrationPredicate m2) (orderedDocs (traversable (traverser m2))))
                 = [1, 4]))"
  by code_simp

text \<open>
  C8. For every batch migrator whose traverser configuration is valid (every migrator
  the constructor has built), with or without registered hooks: \<open>withPredicate\<close> returns a
  migrator with the same traverser, the new predicate, and both hook slots empty.
\<close>

theorem withPredicate_carries_no_hooks:
  assumes "validateConfig (traversalConfig (traverser m)) = None"
  shows "withPredicate m p =
           Inr \<lparr>traverser = traverser m, migrationPredicate = p,
                registeredCallbacks = \<lparr>onBeforeBatchStart = None, onAfterBatchComplete = None\<rparr>\<rparr>
       \<and> withPredicate (register_onAfterBatchComplete (register_onBeforeBatchStart m before) after) p =
           Inr \<lparr>traverser = traverser m, migrationPredicate = p,
                registeredCallbacks = \<lparr>onBeforeBatchStart = None, onAfterBatchComplete = None\<rparr>\<rparr>"
  using assms
  by (simp add: withPredicate_def new_BatchMigrator_def register_onBeforeBatchStart_def
        register_onAfterBatchComplete_def)

text \<open>
  The example migrator is a constructed migrator with both hooks registered; the
  migrator \<open>withPredicate\<close> returns for it has none.
\<close>

theorem withPredicate_carries_no_hooks_witness:
  "validateConfig (traversalConfig (traverser (exampleMigrator [] 5))) = None
   \<and> (case new_BatchMigrator (exampleTraverser [] 5) (Some isPending) of
         Inl e \<Rightarrow> False
       | Inr m0 \<Rightarrow>
           register_onAfterBatchComplete
             (register_onBeforeBatchStart m0 (\<lambda>snapshots i. (''before'', i)))
             (\<lambda>snapshots i. (''after'', i)) = exampleMigrator [] 5)
   \<and> onBeforeBatchStart (registeredCallbacks (exampleMigrator [] 5)) \<noteq> None
   \<and> onAfterBatchComplete (registeredCallbacks (exampleMigrator [] 5)) \<noteq> None
   \<and> (\<exists>m'. withPredicate (exampleMigrator [] 5) (\<lambda>s. ref s \<le> 2) = Inr m'
         \<and> onBeforeBatchStart (registeredCallbacks m') = None
         \<and> onAfterBatchComplete (registeredCallbacks m') = None
         \<and> traverser m' = exampleTraverser [] 5)"
proof -
  have v: "validateConfig (traversalConfig (traverser (exampleMigrator [] 5))) = None"
    by (simp add: validateConfig_def exampleMigrator_def exampleTraverser_def exampleConfig_def)
  have c: "(case new_BatchMigrator (exampleTraverser [] 5) (Some isPending) of
         Inl e \<Rightarrow> False
       | Inr m0 \<Rightarrow>
           register_onAfterBatchComplete
             (register_onBeforeBatchStart m0 (\<lambda>snapshots i. (''before'', i)))
             (\<lambda>snapshots i. (''after'', i)) = exampleMigrator [] 5)"
    by (simp add: new_BatchMigrator_def validateConfig_def exampleTraverser_def exampleConfig_def
          register_onBeforeBatchStart_def register_onAfterBatchComplete_def exampleMigrator_def)
  show ?thesis
    using v c withPredicate_carries_no_hooks[OF v, of "\<lambda>s. ref s \<le> 2", THEN conjunct1]
    by (simp add: exampleMigrator_def)
qed

text \<open>
  C6, as the code has it. The claim says that the hooks run for every operation kind.
  The callback of \<open>update\<close> calls neither hook: on the example migrator, which has both
  hooks registered, \<open>set\<close> fires the before hook and the after hook of the batch, and
  \<open>update\<close> over the same collection fires none, although it migrates the same records.
\<close>

theorem update_fires_no_hook:
  "hooksFired (trace (snd (BatchMigrator_set (exampleMigrator [] 5) (Data ''migrated'') None [])))
     = [(''before'', 0), (''after'', 0)]
   \<and> hooksFired (trace (snd (BatchMigrator_update (exampleMigrator [] 5)
         (Value ''status'') (Value ''migrated'') []))) = []
   \<and> fst (BatchMigrator_update (exampleMigrator [] 5) (Value ''status'') (Value ''migrated'') []) =
       Inr \<lparr>migrationBatchCount = 1, traversedDocCount = 5, migratedDocCount = 2\<rparr>"
  by code_simp

section \<open>The dispatch of update\<close>

text \<open>
  C9. For every call \<open>update(field, undefined)\<close> with a field that is not a function: the
  argument count is 1, so each snapshot that passes the predicate gets the write
  \<open>writeBatch.update(ref, field)\<close> of the single-argument signature, with \<open>field\<close> in the
  place of the update data; with a defined value the write is
  \<open>writeBatch.update(ref, field, value)\<close>.
\<close>

theorem update_undefined_value_is_single_argument:
  "argCount (Value field :: (('k, 'v) snapshot, 'v) jsarg) Undefined = 1
   \<and> updateEach p (Value field) Undefined (wb, n) s =
       (if p s then (wb @ [WUpdate (ref s) (Value field)], n + 1) else (wb, n))
   \<and> commitAttempts (trace (snd (updateCallback m (Value field) Undefined snaps i st))) =
       commitAttempts (trace st)
         @ [map (\<lambda>s. WUpdate (ref s) (Value field)) (filter (migrationPredicate m) snaps)]
   \<and> updateEach p (Value field) (Value v) (wb, n) s =
       (if p s then (wb @ [WUpdateField (ref s) (Value field) (Value v)], n + 1) else (wb, n))"
  by (simp add: argCount_def updateEach_def updateCallback_batchAlgorithm
        batchAlgorithm_attempts updateWrite_def)

text \<open>On the example: the two pending documents get a single-argument update.\<close>

theorem update_undefined_value_is_single_argument_witness:
  "store (snd (updateCallback (exampleMigrator [] 5) (Value ''status'') Undefined exampleDocs 0
       \<lparr>store = [], migratedDocCountVar = 0, trace = []\<rparr>)) =
     [WUpdate 1 (Value ''status''), WUpdate 4 (Value ''status'')]
   \<and> commitAttempts (trace (snd (updateCallback (exampleMigrator [] 5) (Value ''status'') Undefined
       exampleDocs 0 \<lparr>store = [], migratedDocCountVar = 0, trace = []\<rparr>))) =
     [[WUpdate 1 (Value ''status''), WUpdate 4 (Value ''status'')]]"
  using update_undefined_value_is_single_argument[of "''status''" isPending "[]" 0
          "\<lparr>ref = 1, sdata = ''pending''\<rparr>" "exampleMigrator [] 5" exampleDocs 0
          "\<lparr>store = [], migratedDocCountVar = 0, trace = []\<rparr>" "''x''"]
  by (simp add: updateCallback_batchAlgorithm batchAlgorithm_store batchAlgorithm_attempts
        exampleDocs_def exampleMigrator_def exampleTraverser_def isPending_def
        updateWrite_def argCount_def lockedCommit_def)

section \<open>The counter and the result of a migration\<close>

text \<open>
  C10. For \<open>set\<close> and for \<open>update\<close>: a callback whose commit succeeds adds the number of
  snapshots that passed the predicate to the counter, and the committed write batch
  holds as many writes; a callback whose commit is rejected leaves the counter and the
  committed write batches as they were. At the end of every call, successful or failed,
  the counter is the number of writes in the committed write batches.
\<close>

theorem counter_counts_committed_batches_only:
  assumes "(r, cb) = (BatchMigrator_set m d opts fs, setCallback m d opts)
         \<or> (r, cb) = (BatchMigrator_update m a1 a2 fs, updateCallback m a1 a2)"
  shows "(case cb snaps i st of
            (None, st') \<Rightarrow>
              migratedDocCountVar st' = migratedDocCountVar st + length (filter (migrationPredicate m) snaps)
              \<and> sum_list (map length (committedWrites (trace st')))
                  = sum_list (map length (committedWrites (trace st)))
                    + length (filter (migrationPredicate m) snaps)
              \<and> rejectedWrites (trace st') = rejectedWrites (trace st)
          | (Some e, st') \<Rightarrow>
              migratedDocCountVar st' = migratedDocCountVar st
              \<and> committedWrites (trace st') = committedWrites (trace st)
              \<and> length (rejectedWrites (trace st')) = Suc (length (rejectedWrites (trace st))))
       \<and> migratedDocCountVar (snd r) = sum_list (map length (committedWrites (trace (snd r))))"
proof -
  obtain w before after where
    cb: "cb = batchAlgorithm (traversable (traverser m)) (migrationPredicate m) w before after"
    and r: "r = migrationResult
                 (runBatches
                    (batchAlgorithm (traversable (traverser m)) (migrationPredicate m) w before after)
                    (batches (traverser m)) 0 0 \<lparr>store = fs, migratedDocCountVar = 0, trace = []\<rparr>)"
    using assms BatchMigrator_set_run[of m d opts fs] BatchMigrator_update_run[of m a1 a2 fs]
      setCallback_batchAlgorithm[of m d opts] updateCallback_batchAlgorithm[of m a1 a2]
    by auto
  obtain x st' where x: "cb snaps i st = (x, st')" by (cases "cb snaps i st")
  have first: "case cb snaps i st of
            (None, st') \<Rightarrow>
              migratedDocCountVar st' = migratedDocCountVar st + length (filter (migrationPredicate m) snaps)
              \<and> sum_list (map length (committedWrites (trace st')))
                  = sum_list (map length (committedWrites (trace st)))
                    + length (filter (migrationPredicate m) snaps)
              \<and> rejectedWrites (trace st') = rejectedWrites (trace st)
          | (Some e, st') \<Rightarrow>
              migratedDocCountVar st' = migratedDocCountVar st
              \<and> committedWrites (trace st') = committedWrites (trace st)
              \<and> length (rejectedWrites (trace st')) = Suc (length (rejectedWrites (trace st)))"
  proof (cases x)
    case None
    from batchAlgorithm_ok[OF x[unfolded cb None]] x None show ?thesis by simp
  next
    case (Some e)
    note f = batchAlgorithm_fail[OF x[unfolded cb Some]]
    from f(5) obtain evs where "trace st' = trace st @ evs @ [CommitRejected (map w (filter (migrationPredicate m) snaps))]"
      "committedWrites evs = []" "rejectedWrites evs = []" by blast
    with f(4) x Some show ?thesis by simp
  qed
  obtain out st2 where run: "runBatches
                    (batchAlgorithm (traversable (traverser m)) (migrationPredicate m) w before after)
                    (batches (traverser m)) 0 0 \<lparr>store = fs, migratedDocCountVar = 0, trace = []\<rparr> = (out, st2)"
    by (cases "runBatches
                    (batchAlgorithm (traversable (traverser m)) (migrationPredicate m) w before after)
                    (batches (traverser m)) 0 0 \<lparr>store = fs, migratedDocCountVar = 0, trace = []\<rparr>")
  have "migratedDocCountVar (snd r) = sum_list (map length (committedWrites (trace (snd r))))"
    using run_counter[OF run] run r by simp
  with first show ?thesis by blast
qed

text \<open>
  On the example with document 4 locked: the second batch is rejected, the call fails,
  and the counter is 1, the one write of the first batch.
\<close>

theorem counter_counts_committed_batches_only_witness:
  "fst (BatchMigrator_set (exampleMigrator [4] 2) (Data ''migrated'') None []) = Inl CommitError
   \<and> migratedDocCountVar (snd (BatchMigrator_set (exampleMigrator [4] 2) (Data ''migrated'') None []))
       = 1
   \<and> committedWrites (trace (snd (BatchMigrator_set (exampleMigrator [4] 2) (Data ''migrated'')
         None []))) = [[WSet 1 ''migrated'']]
   \<and> migratedDocCountVar (snd (BatchMigrator_set (exampleMigrator [4] 2) (Data ''migrated'') None []))
       = sum_list (map length (committedWrites (trace (snd (BatchMigrator_set
           (exampleMigrator [4] 2) (Data ''migrated'') None [])))))"
proof -
  note c = counter_counts_committed_batches_only[
      where r = "BatchMigrator_set (exampleMigrator [4] 2) (Data ''migrated'') None []"
        and cb = "setCallback (exampleMigrator [4] 2) (Data ''migrated'') None"
        and m = "exampleMigrator [4] 2" and d = "Data ''migrated''" and opts = None and fs = "[]",
      OF disjI1[OF refl]]
  from c[THEN conjunct2] show ?thesis
    by (simp add: example_set_fail)
qed



section \<open>A rejected commit\<close>



section \<open>Configuration errors\<close>

text \<open>
  C7. For every configuration with a non-positive batch size, a negative delay or a
  non-positive concurrency: \<open>createTraverser\<close>, \<open>createFastTraverser\<close> and the constructor
  of \<open>BatchMigrator\<close> over a traverser that carries the configuration return a
  configuration error and no object. No traversal raises a configuration error of its
  own (one can only come out of the caller's callback), and no call of \<open>set\<close> or \<open>update\<close>
  returns one.
\<close>

theorem invalid_config_rejected_at_construction:
  assumes "batchSize c \<le> 0 \<or> delayBetweenBatchesMs c < 0
         \<or> (\<exists>k. maxConcurrentBatchCount c = Some k \<and> k \<le> 0)"
  shows "createTraverser tb c = Inl ConfigurationError
       \<and> createFastTraverser tb c = Inl ConfigurationError
       \<and> (traversalConfig t = c \<longrightarrow> new_BatchMigrator t p = Inl ConfigurationError)
       \<and> fst (BatchMigrator_set m d opts fs) \<noteq> Inl ConfigurationError
       \<and> fst (BatchMigrator_update m a1 a2 fs) \<noteq> Inl ConfigurationError
       \<and> (fst (traverse t' cb st) = Inl ConfigurationError \<longrightarrow>
            (\<exists>page i s s'. cb page i s = (Some ConfigurationError, s')))"
proof -
  note v = validateConfig_invalid[OF assms]
  have 1: "createTraverser tb c = Inl ConfigurationError"
    by (simp add: createTraverser_def BasicSlowTraverserImplementation_def v)
  have 2: "createFastTraverser tb c = Inl ConfigurationError"
    by (simp add: createFastTraverser_def PromiseQueueBasedFastTraverserImplementation_def v)
  have 3: "traversalConfig t = c \<longrightarrow> new_BatchMigrator t p = Inl ConfigurationError"
    by (simp add: new_BatchMigrator_def v)
  have 4: "fst (BatchMigrator_set m d opts fs) \<noteq> Inl ConfigurationError"
  proof
    assume a: "fst (BatchMigrator_set m d opts fs) = Inl ConfigurationError"
    from runBatches_error[OF a[unfolded BatchMigrator_set_run migrationResult_fst_Inl]]
    show False using batchAlgorithm_no_config_error by blast
  qed
  have 5: "fst (BatchMigrator_update m a1 a2 fs) \<noteq> Inl ConfigurationError"
  proof
    assume a: "fst (BatchMigrator_update m a1 a2 fs) = Inl ConfigurationError"
    from runBatches_error[OF a[unfolded BatchMigrator_update_run migrationResult_fst_Inl]]
    show False using batchAlgorithm_no_config_error by blast
  qed
  have 6: "fst (traverse t' cb st) = Inl ConfigurationError \<longrightarrow>
            (\<exists>page i s s'. cb page i s = (Some ConfigurationError, s'))"
    by (auto simp: traverse_runBatches dest: runBatches_error)
  from 1 2 3 4 5 6 show ?thesis by blast
qed

text \<open>On the example: batch size 0 is rejected, batch size 2 constructs the traverser.\<close>

theorem invalid_config_rejected_at_construction_witness:
  "batchSize (exampleConfig 0) \<le> 0
   \<and> createTraverser \<lparr>docs = exampleDocs, firestore_commit = lockedCommit []\<rparr> (exampleConfig 0)
       = Inl ConfigurationError
   \<and> createFastTraverser \<lparr>docs = exampleDocs, firestore_commit = lockedCommit []\<rparr> (exampleConfig 0)
       = Inl ConfigurationError
   \<and> createTraverser \<lparr>docs = exampleDocs, firestore_commit = lockedCommit []\<rparr> (exampleConfig 2)
       = Inr (exampleTraverser [] 2)"
proof -
  have h: "batchSize (exampleConfig 0) \<le> 0 \<or> delayBetweenBatchesMs (exampleConfig 0) < 0
         \<or> (\<exists>k. maxConcurrentBatchCount (exampleConfig 0) = Some k \<and> k \<le> 0)"
    by (simp add: exampleConfig_def)
  note c = invalid_config_rejected_at_construction[OF h,
      where tb = "\<lparr>docs = exampleDocs, firestore_commit = lockedCommit []\<rparr>"]
  have ok: "createTraverser \<lparr>docs = exampleDocs, firestore_commit = lockedCommit []\<rparr>
              (exampleConfig 2) = Inr (exampleTraverser [] 2)"
    by (simp add: createTraverser_def BasicSlowTraverserImplementation_def validateConfig_def
          exampleConfig_def exampleTraverser_def)
  from c[THEN conjunct1] c[THEN conjunct2, THEN conjunct1] ok show ?thesis
    by (simp add: exampleConfig_def)
qed

section \<open>The concurrent traverser\<close>

text \<open>
  Modelled from the spec: the class \<open>PromiseQueueBasedFastTraverserImplementation\<close> is not
  among the sources. The spec (4.2) keeps a window of at most \<open>maxConcurrentBatchCount\<close>
  units in flight; a unit is the fetch of the next page, with the cursor taken from the
  page of the previous unit, and the invocation of the callback on that page. The
  callbacks settle in any order. In the model a schedule, a list of actions, drives the
  traversal: \<open>Admit\<close> admits the next unit when the window has room and admission is not
  closed, and does nothing otherwise; \<open>Settle j\<close> lets the callback of the \<open>j\<close>-th unit in
  flight settle. A callback acts on the caller's state when it is invoked, and its outcome
  is observed when it settles. Admission closes after the final page (partial or empty),
  when the next page would take the record count above \<open>maxDocCount\<close>, after a settled
  callback has signalled an early exit, and after a failure. The traversal is complete
  when admission is closed and no unit is in flight; \<open>fastTraverse\<close> returns \<open>None\<close> for
  a schedule that ends before that.
\<close>

datatype sched_action = Admit | Settle nat

record ('k, 'v, 's) fast_state =
  cursorF :: "('k, 'v) snapshot option"
  admissionClosed :: bool
  inFlight :: "(nat \<times> ('k, 'v) snapshot list \<times> error option) list"
  admittedBatchCount :: nat
  admittedDocCount :: nat
  firstFailure :: "error option"
  exitSignalled :: bool
  callerState :: 's

definition belowCeiling :: "traversal_config \<Rightarrow> nat \<Rightarrow> bool" where
  "belowCeiling c n = (case maxConcurrentBatchCount c of None \<Rightarrow> True | Some k \<Rightarrow> int n < k)"

definition wouldExceed :: "traversal_config \<Rightarrow> nat \<Rightarrow> bool" where
  "wouldExceed c n = (case maxDocCount c of None \<Rightarrow> False | Some m \<Rightarrow> m < int n)"

definition admit ::
  "('k::linorder, 'v, 'o, 'fs) traverser \<Rightarrow>
   (('k, 'v) snapshot list \<Rightarrow> nat \<Rightarrow> 's \<Rightarrow> error option \<times> 's) \<Rightarrow>
   ('k, 'v, 's) fast_state \<Rightarrow> ('k, 'v, 's) fast_state" where
  "admit t callback st =
     (if admissionClosed st \<or> exitSignalled st \<or> firstFailure st \<noteq> None
         \<or> \<not> belowCeiling (traversalConfig t) (length (inFlight st))
      then st
      else
        (let page = fetchPage (traversable t) (cursorF st) (nat (batchSize (traversalConfig t))) in
         if page = [] then st\<lparr>admissionClosed := True\<rparr>
         else if wouldExceed (traversalConfig t) (admittedDocCount st + length page)
         then st\<lparr>admissionClosed := True\<rparr>
         else
           (case callback page (admittedBatchCount st) (callerState st) of
              (r, s') \<Rightarrow>
                st\<lparr>cursorF := Some (last page),
                   admissionClosed := (length page < nat (batchSize (traversalConfig t))),
                   inFlight := inFlight st @ [(admittedBatchCount st, page, r)],
                   admittedBatchCount := admittedBatchCount st + 1,
                   admittedDocCount := admittedDocCount st + length page,
                   callerState := s'\<rparr>)))"

definition settle ::
  "('k, 'v, 'o, 'fs) traverser \<Rightarrow> nat \<Rightarrow> ('k, 'v, 's) fast_state \<Rightarrow> ('k, 'v, 's) fast_state" where
  "settle t j st =
     (if j < length (inFlight st)
      then (case inFlight st ! j of
              (i, page, r) \<Rightarrow>
                st\<lparr>inFlight := take j (inFlight st) @ drop (Suc j) (inFlight st),
                   firstFailure := (case firstFailure st of None \<Rightarrow> r | Some e \<Rightarrow> Some e),
                   exitSignalled :=
                     (exitSignalled st \<or> shouldExitEarly (exitEarlyPredicates t) page i)\<rparr>)
      else st)"

fun fastStep ::
  "('k::linorder, 'v, 'o, 'fs) traverser \<Rightarrow>
   (('k, 'v) snapshot list \<Rightarrow> nat \<Rightarrow> 's \<Rightarrow> error option \<times> 's) \<Rightarrow>
   sched_action \<Rightarrow> ('k, 'v, 's) fast_state \<Rightarrow> ('k, 'v, 's) fast_state" where
  "fastStep t callback Admit st = admit t callback st"
| "fastStep t callback (Settle j) st = settle t j st"

fun fastRun ::
  "('k::linorder, 'v, 'o, 'fs) traverser \<Rightarrow>
   (('k, 'v) snapshot list \<Rightarrow> nat \<Rightarrow> 's \<Rightarrow> error option \<times> 's) \<Rightarrow>
   sched_action list \<Rightarrow> ('k, 'v, 's) fast_state \<Rightarrow> ('k, 'v, 's) fast_state" where
  "fastRun t callback [] st = st"
| "fastRun t callback (a # as) st = fastRun t callback as (fastStep t callback a st)"

definition fastInit :: "'s \<Rightarrow> ('k, 'v, 's) fast_state" where
  "fastInit s =
     \<lparr>cursorF = None, admissionClosed = False, inFlight = [], admittedBatchCount = 0,
      admittedDocCount = 0, firstFailure = None, exitSignalled = False, callerState = s\<rparr>"

definition fastResult :: "('k, 'v, 's) fast_state \<Rightarrow> ((error + TraversalResult) \<times> 's) option" where
  "fastResult st =
     (if (admissionClosed st \<or> exitSignalled st \<or> firstFailure st \<noteq> None) \<and> inFlight st = []
      then Some (case firstFailure st of
                   Some e \<Rightarrow> (Inl e, callerState st)
                 | None \<Rightarrow> (Inr \<lparr>batchCount = admittedBatchCount st,
                                  docCount = admittedDocCount st\<rparr>, callerState st))
      else None)"

definition fastTraverse ::
  "('k::linorder, 'v, 'o, 'fs) traverser \<Rightarrow>
   (('k, 'v) snapshot list \<Rightarrow> nat \<Rightarrow> 's \<Rightarrow> error option \<times> 's) \<Rightarrow>
   sched_action list \<Rightarrow> 's \<Rightarrow> ((error + TraversalResult) \<times> 's) option" where
  "fastTraverse t callback sched s = fastResult (fastRun t callback sched (fastInit s))"

text \<open>A callback that records the batches it is invoked on and never fails.\<close>

definition recordBatch ::
  "('k, 'v) snapshot list \<Rightarrow> nat \<Rightarrow> ('k, 'v) snapshot list list \<Rightarrow>
   error option \<times> ('k, 'v) snapshot list list" where
  "recordBatch page batchIndex visited = (None, visited @ [page])"

text \<open>The schedule that admits one unit and lets it settle, \<open>n\<close> times over.\<close>

definition oneAtATime :: "nat \<Rightarrow> sched_action list" where
  "oneAtATime n = concat (replicate n [Admit, Settle 0])"

text \<open>A collection of \<open>n\<close> documents, and traversers over it.\<close>

definition exampleCollection :: "nat \<Rightarrow> (nat, string) snapshot list" where
  "exampleCollection n = map (\<lambda>i. \<lparr>ref = i, sdata = ''doc''\<rparr>) (rev [0..<n])"

definition exampleFastTraverser ::
  "nat \<Rightarrow> int \<Rightarrow> int \<Rightarrow> (nat, string, bool, (nat, string, bool) write_op list) traverser" where
  "exampleFastTraverser n b k =
     \<lparr>traversable = \<lparr>docs = exampleCollection n, firestore_commit = lockedCommit []\<rparr>,
      exitEarlyPredicates = [],
      traversalConfig = \<lparr>batchSize = b, delayBetweenBatchesMs = 0, maxDocCount = None,
                         maxConcurrentBatchCount = Some k\<rparr>\<rparr>"

section \<open>Pages of a collection\<close>

text \<open>
  A list cut into consecutive pieces of \<open>n\<close> elements, the last one possibly shorter:
  what the pages of a collection are when nothing stops the traversal.
\<close>

function chunks :: "nat \<Rightarrow> 'a list \<Rightarrow> 'a list list" where
  "chunks n xs = (if n = 0 \<or> xs = [] then [] else take n xs # chunks n (drop n xs))"
  by pat_completeness auto
termination
  by (relation "measure (\<lambda>(n, xs). length xs)") auto

declare chunks.simps [simp del]

lemma chunks_Nil [simp]: "chunks n [] = []"
  by (simp add: chunks.simps)

lemma concat_chunks: "0 < n \<Longrightarrow> concat (chunks n xs) = xs"
proof (induction n xs rule: chunks.induct)
  case (1 n xs)
  then show ?case by (cases "xs = []") (simp_all add: chunks.simps[of n xs])
qed

lemma length_chunks: "0 < n \<Longrightarrow> length (chunks n xs) = (length xs + n - 1) div n"
proof (induction n xs rule: chunks.induct)
  case (1 n xs)
  show ?case
  proof (cases "xs = []")
    case True
    with 1 show ?thesis by simp
  next
    case False
    with 1 have IH: "length (chunks n (drop n xs)) = (length (drop n xs) + n - 1) div n" by simp
    show ?thesis
    proof (cases "length xs \<le> n")
      case True
      with False 1(2) have "(length xs + n - 1) div n = 1"
        by (cases xs) (simp_all add: div_eq_dividend_iff Suc_le_eq le_div_geq)
      with True False 1(2) IH show ?thesis by (simp add: chunks.simps[of n xs])
    next
      case gt: False
      then have "length xs + n - 1 = (length xs - n + n - 1) + n" using 1(2) by simp
      then have "(length xs + n - 1) div n = Suc ((length xs - n + n - 1) div n)"
        using 1(2) by (metis div_add_self2 less_numeral_extra(3) Suc_eq_plus1)
      with False 1(2) IH show ?thesis by (simp add: chunks.simps[of n xs])
    qed
  qed
qed

lemma map_length_chunks:
  "0 < n \<Longrightarrow> map length (chunks n xs) =
     replicate (length xs div n) n @ (if length xs mod n = 0 then [] else [length xs mod n])"
proof (induction n xs rule: chunks.induct)
  case (1 n xs)
  show ?case
  proof (cases "xs = []")
    case True
    with 1 show ?thesis by simp
  next
    case False
    with 1 have IH: "map length (chunks n (drop n xs)) =
       replicate (length (drop n xs) div n) n
         @ (if length (drop n xs) mod n = 0 then [] else [length (drop n xs) mod n])" by simp
    show ?thesis
    proof (cases "length xs < n")
      case True
      with False 1(2) IH show ?thesis by (simp add: chunks.simps[of n xs])
    next
      case ge: False
      then have d: "length xs div n = Suc ((length xs - n) div n)"
        using 1(2) by (simp add: le_div_geq)
      have m: "length xs mod n = (length xs - n) mod n"
        using ge by (simp add: le_mod_geq)
      from False 1(2) IH ge d m show ?thesis by (simp add: chunks.simps[of n xs])
    qed
  qed
qed


lemma filter_after_nth:
  fixes f :: "'a \<Rightarrow> 'b::linorder"
  shows "sorted_wrt (\<lambda>a b. f a < f b) xs \<Longrightarrow> i < length xs \<Longrightarrow>
   filter (\<lambda>s. f (xs ! i) < f s) xs = drop (Suc i) xs"
proof (induction xs arbitrary: i)
  case Nil
  then show ?case by simp
next
  case (Cons a xs)
  show ?case
  proof (cases i)
    case 0
    from Cons.prems(1) have "\<forall>s \<in> set xs. f a < f s" by simp
    then have "filter (\<lambda>s. f a < f s) xs = xs" by (simp add: filter_id_conv)
    with 0 show ?thesis by simp
  next
    case (Suc j)
    with Cons.prems have j: "j < length xs" and "f a < f (xs ! j)" by auto
    then have "\<not> f (xs ! j) < f a" by simp
    moreover from Cons.IH[OF _ j] Cons.prems(1)
    have "filter (\<lambda>s. f (xs ! j) < f s) xs = drop (Suc j) xs" by simp
    ultimately show ?thesis using Suc by simp
  qed
qed

lemma filter_after_last_take:
  fixes f :: "'a \<Rightarrow> 'b::linorder"
  assumes "sorted_wrt (\<lambda>a b. f a < f b) xs" and "take n (drop k xs) \<noteq> []"
  shows "filter (\<lambda>s. f (last (take n (drop k xs))) < f s) xs = drop n (drop k xs)"
proof -
  from assms(2) have n: "0 < n" and k: "k < length xs" by (auto intro: Suc_lessI)
  have l: "last (take n (drop k xs)) = take n (drop k xs) ! (length (take n (drop k xs)) - 1)"
    using assms(2) by (rule last_conv_nth)
  show ?thesis
  proof (cases "k + n \<le> length xs")
    case True
    then have "length (take n (drop k xs)) = n" by simp
    with l have "last (take n (drop k xs)) = take n (drop k xs) ! (n - 1)" by simp
    also have "\<dots> = xs ! (k + (n - 1))" using n True by simp
    finally have "last (take n (drop k xs)) = xs ! (k + n - 1)" using n by simp
    moreover have "k + n - 1 < length xs" using True n by simp
    ultimately have "filter (\<lambda>s. f (last (take n (drop k xs))) < f s) xs = drop (Suc (k + n - 1)) xs"
      using filter_after_nth[OF assms(1), of "k + n - 1"] by simp
    with n show ?thesis by (simp add: add.commute)
  next
    case False
    then have "length (take n (drop k xs)) = length xs - k" by simp
    with l have "last (take n (drop k xs)) = take n (drop k xs) ! (length xs - k - 1)" by simp
    also have "\<dots> = xs ! (k + (length xs - k - 1))" using k False by simp
    finally have "last (take n (drop k xs)) = xs ! (length xs - 1)" using k by simp
    moreover have "length xs - 1 < length xs" using k by simp
    ultimately have "filter (\<lambda>s. f (last (take n (drop k xs))) < f s) xs
                     = drop (Suc (length xs - 1)) xs"
      using filter_after_nth[OF assms(1), of "length xs - 1"] by simp
    with False k show ?thesis by simp
  qed
qed

lemma distinct_map_insort_key:
  "distinct (map f (insort_key f x xs)) \<longleftrightarrow> f x \<notin> f ` set xs \<and> distinct (map f xs)"
  by (induction xs) (auto simp: set_insort_key)

lemma distinct_map_sort_key:
  "distinct (map f (sort_key f xs)) \<longleftrightarrow> distinct (map f xs)"
  by (induction xs) (simp_all add: distinct_map_insort_key)

lemma orderedDocs_strict:
  assumes "distinct (map ref (docs tb))"
  shows "sorted_wrt (\<lambda>a b. ref a < ref b) (orderedDocs tb)"
proof -
  have "sorted (map ref (orderedDocs tb))" by (simp add: orderedDocs_def)
  moreover have "distinct (map ref (orderedDocs tb))"
    using assms by (simp add: orderedDocs_def distinct_map_sort_key)
  ultimately have "sorted_wrt (<) (map ref (orderedDocs tb))"
    by (simp add: strict_sorted_iff)
  then show ?thesis by (simp add: sorted_wrt_map)
qed

text \<open>The next cursor points just behind the page that was fetched.\<close>

lemma startAfter_next:
  assumes "distinct (map ref (docs tb))"
    and "startAfter tb cursor = drop k (orderedDocs tb)"
    and "fetchPage tb cursor n \<noteq> []"
  shows "startAfter tb (Some (last (fetchPage tb cursor n))) = drop (k + n) (orderedDocs tb)"
proof -
  have "filter (\<lambda>s. ref (last (take n (drop k (orderedDocs tb)))) < ref s) (orderedDocs tb)
        = drop n (drop k (orderedDocs tb))"
    using orderedDocs_strict[OF assms(1)] assms(2,3)
    by (intro filter_after_last_take) (simp_all add: fetchPage_def)
  then show ?thesis
    using assms(2) by (simp add: startAfter_def fetchPage_def add.commute)
qed

lemma pagesFrom_chunks:
  assumes "distinct (map ref (docs (traversable t)))"
    and "maxDocCount (traversalConfig t) = None"
    and "exitEarlyPredicates t = []"
    and "startAfter (traversable t) cursor = drop k (orderedDocs (traversable t))"
  shows "pagesFrom t cursor bc dc =
           chunks (nat (batchSize (traversalConfig t))) (drop k (orderedDocs (traversable t)))"
  using assms
proof (induction t cursor bc dc arbitrary: k rule: pagesFrom.induct)
  case (1 t cursor bc dc)
  note d = "1.prems"(1) and nolimit = "1.prems"(2) and noexit = "1.prems"(3)
    and cur = "1.prems"(4)
  let ?B = "nat (batchSize (traversalConfig t))"
  let ?page = "fetchPage (traversable t) cursor ?B"
  show ?case
  proof (cases "?page = []")
    case True
    then have "?B = 0 \<or> drop k (orderedDocs (traversable t)) = []"
      using cur by (auto simp: fetchPage_def)
    with True show ?thesis
      by (auto simp: pagesFrom.simps[of t cursor bc dc] chunks.simps[of ?B])
  next
    case False
    then have B: "?B \<noteq> 0" and ne: "drop k (orderedDocs (traversable t)) \<noteq> []"
      using cur by (auto simp: fetchPage_def)
    have page: "?page = take ?B (drop k (orderedDocs (traversable t)))"
      using cur by (simp add: fetchPage_def)
    have stop: "\<not> (limitReached (traversalConfig t) (dc + length ?page)
                   \<or> shouldExitEarly (exitEarlyPredicates t) ?page bc)"
      using nolimit noexit by (simp add: limitReached_def shouldExitEarly_def)
    have nxt: "startAfter (traversable t) (Some (last ?page))
                = drop (k + ?B) (orderedDocs (traversable t))"
      using d cur False by (rule startAfter_next)
    have "pagesFrom t (Some (last ?page)) (bc + 1) (dc + length ?page) =
          chunks ?B (drop (k + ?B) (orderedDocs (traversable t)))"
      using "1.IH"[OF refl False stop d nolimit noexit nxt] .
    with False stop B ne page show ?thesis
      by (simp add: pagesFrom.simps[of t cursor bc dc] Let_def
            chunks.simps[of ?B "drop k (orderedDocs (traversable t))"] add.commute)
  qed
qed

lemma batches_chunks:
  assumes "distinct (map ref (docs (traversable t)))"
    and "maxDocCount (traversalConfig t) = None"
    and "exitEarlyPredicates t = []"
  shows "batches t = chunks (nat (batchSize (traversalConfig t))) (orderedDocs (traversable t))"
  using pagesFrom_chunks[OF assms, of None 0 0 0] by (simp add: batches_def startAfter_def)

section \<open>Runs of the concurrent traverser\<close>

lemma runBatches_snoc:
  "runBatches cb ps bc dc s = (Inr r, s') \<Longrightarrow>
   runBatches cb (ps @ [p]) bc dc s =
     (case cb p (batchCount r) s' of
        (Some e, s'') \<Rightarrow> (Inl e, s'')
      | (None, s'') \<Rightarrow> (Inr \<lparr>batchCount = batchCount r + 1, docCount = docCount r + length p\<rparr>, s''))"
proof (induction ps arbitrary: bc dc s)
  case Nil
  then show ?case by (auto split: prod.splits option.splits)
next
  case (Cons a ps)
  obtain x s1 where cb: "cb a bc s = (x, s1)" by (cases "cb a bc s")
  with Cons.prems have x: "x = None"
    and run: "runBatches cb ps (bc + 1) (dc + length a) s1 = (Inr r, s')"
    by (auto split: option.splits)
  from Cons.IH[OF run] cb x show ?case by simp
qed

lemma runBatches_total:
  assumes "\<forall>page i s. fst (cb page i s) = None"
  shows "\<exists>s'. runBatches cb ps bc dc s =
           (Inr \<lparr>batchCount = bc + length ps, docCount = dc + length (concat ps)\<rparr>, s')"
proof (induction ps arbitrary: bc dc s)
  case Nil
  then show ?case by simp
next
  case (Cons a ps)
  obtain x s1 where cb: "cb a bc s = (x, s1)" by (cases "cb a bc s")
  with assms have x: "x = None" by (metis fst_conv)
  from Cons.IH[of "bc + 1" "dc + length a" s1] cb x show ?case by (auto simp: add.assoc)
qed

definition fastInv ::
  "('k::linorder, 'v, 'o, 'fs) traverser \<Rightarrow>
   (('k, 'v) snapshot list \<Rightarrow> nat \<Rightarrow> 's \<Rightarrow> error option \<times> 's) \<Rightarrow> 's \<Rightarrow>
   ('k, 'v, 's) fast_state \<Rightarrow> bool" where
  "fastInv t cb s0 st =
     (\<exists>k ps. startAfter (traversable t) (cursorF st) = drop k (orderedDocs (traversable t))
        \<and> batches t = ps @ chunks (nat (batchSize (traversalConfig t)))
                               (drop k (orderedDocs (traversable t)))
        \<and> runBatches cb ps 0 0 s0 =
            (Inr \<lparr>batchCount = admittedBatchCount st, docCount = admittedDocCount st\<rparr>,
             callerState st)
        \<and> (admissionClosed st \<longrightarrow>
              chunks (nat (batchSize (traversalConfig t))) (drop k (orderedDocs (traversable t))) = [])
        \<and> firstFailure st = None \<and> \<not> exitSignalled st
        \<and> (\<forall>u \<in> set (inFlight st). snd (snd u) = None))"

lemma fastInv_init:
  assumes "distinct (map ref (docs (traversable t)))"
    and "maxDocCount (traversalConfig t) = None"
    and "exitEarlyPredicates t = []"
  shows "fastInv t cb s0 (fastInit s0)"
  unfolding fastInv_def
  by (rule exI[of _ 0], rule exI[of _ "[]"])
     (simp add: fastInit_def startAfter_def batches_chunks[OF assms])

lemma fastInv_settle:
  assumes "exitEarlyPredicates t = []" and "fastInv t cb s0 st"
  shows "fastInv t cb s0 (settle t j st)"
proof (cases "j < length (inFlight st)")
  case False
  with assms(2) show ?thesis by (simp add: settle_def)
next
  case True
  obtain i page r where u: "inFlight st ! j = (i, page, r)" by (cases "inFlight st ! j")
  from assms(2) True u have r: "r = None"
    unfolding fastInv_def by (metis nth_mem snd_conv)
  have sub: "set (take j (inFlight st) @ drop (Suc j) (inFlight st)) \<subseteq> set (inFlight st)"
    by (auto dest: in_set_takeD in_set_dropD)
  from assms(2) obtain k ps where
    *: "startAfter (traversable t) (cursorF st) = drop k (orderedDocs (traversable t))"
       "batches t = ps @ chunks (nat (batchSize (traversalConfig t)))
                               (drop k (orderedDocs (traversable t)))"
       "runBatches cb ps 0 0 s0 =
            (Inr \<lparr>batchCount = admittedBatchCount st, docCount = admittedDocCount st\<rparr>,
             callerState st)"
       "admissionClosed st \<longrightarrow>
          chunks (nat (batchSize (traversalConfig t))) (drop k (orderedDocs (traversable t))) = []"
       "firstFailure st = None" "\<not> exitSignalled st"
       "\<forall>u \<in> set (inFlight st). snd (snd u) = None"
    unfolding fastInv_def by blast
  show ?thesis
    unfolding fastInv_def
    apply (rule exI[of _ k], rule exI[of _ ps])
    using * sub True u r assms(1)
    apply (auto simp: settle_def shouldExitEarly_def)
    done
qed


lemma fastInv_admit:
  assumes d: "distinct (map ref (docs (traversable t)))"
    and nolimit: "maxDocCount (traversalConfig t) = None"
    and nofail: "\<forall>page i s. fst (cb page i s) = None"
    and inv: "fastInv t cb s0 st"
  shows "fastInv t cb s0 (admit t cb st)"
proof -
  let ?B = "nat (batchSize (traversalConfig t))"
  let ?xs = "orderedDocs (traversable t)"
  let ?page = "fetchPage (traversable t) (cursorF st) ?B"
  from inv obtain k ps where
    cur: "startAfter (traversable t) (cursorF st) = drop k ?xs"
    and bs: "batches t = ps @ chunks ?B (drop k ?xs)"
    and run: "runBatches cb ps 0 0 s0 =
            (Inr \<lparr>batchCount = admittedBatchCount st, docCount = admittedDocCount st\<rparr>,
             callerState st)"
    and closed: "admissionClosed st \<longrightarrow> chunks ?B (drop k ?xs) = []"
    and ff: "firstFailure st = None" and ex: "\<not> exitSignalled st"
    and fl: "\<forall>u \<in> set (inFlight st). snd (snd u) = None"
    unfolding fastInv_def by blast
  show ?thesis
  proof (cases "admissionClosed st \<or> exitSignalled st \<or> firstFailure st \<noteq> None
                 \<or> \<not> belowCeiling (traversalConfig t) (length (inFlight st))")
    case True
    then have "admit t cb st = st" by (simp add: admit_def)
    with inv show ?thesis by simp
  next
    case adm: False
    show ?thesis
    proof (cases "?page = []")
      case True
      then have e: "?B = 0 \<or> drop k ?xs = []" using cur by (auto simp: fetchPage_def)
      then have c: "chunks ?B (drop k ?xs) = []" by (auto simp: chunks.simps[of ?B])
      have a: "admit t cb st = st\<lparr>admissionClosed := True\<rparr>"
        using adm True by (simp add: admit_def)
      show ?thesis
        unfolding fastInv_def a
        apply (rule exI[of _ k], rule exI[of _ ps])
        using cur bs c run ff ex fl
        apply simp
        done
    next
      case False
      then have B: "?B \<noteq> 0" and ne: "drop k ?xs \<noteq> []" using cur by (auto simp: fetchPage_def)
      have page: "?page = take ?B (drop k ?xs)" using cur by (simp add: fetchPage_def)
      obtain r s' where cb: "cb ?page (admittedBatchCount st) (callerState st) = (r, s')"
        by (cases "cb ?page (admittedBatchCount st) (callerState st)")
      with nofail have r: "r = None" by (metis fst_conv)
      have a: "admit t cb st =
                st\<lparr>cursorF := Some (last ?page),
                   admissionClosed := (length ?page < ?B),
                   inFlight := inFlight st @ [(admittedBatchCount st, ?page, r)],
                   admittedBatchCount := admittedBatchCount st + 1,
                   admittedDocCount := admittedDocCount st + length ?page,
                   callerState := s'\<rparr>"
        using adm False nolimit cb by (simp add: admit_def wouldExceed_def Let_def)
      have nxt: "startAfter (traversable t) (Some (last ?page)) = drop (k + ?B) ?xs"
        using d cur False by (rule startAfter_next)
      have bs': "batches t = (ps @ [?page]) @ chunks ?B (drop (k + ?B) ?xs)"
        using bs B ne page by (simp add: chunks.simps[of ?B "drop k ?xs"] add.commute)
      have run': "runBatches cb (ps @ [?page]) 0 0 s0 =
            (Inr \<lparr>batchCount = admittedBatchCount st + 1,
                   docCount = admittedDocCount st + length ?page\<rparr>, s')"
        using runBatches_snoc[OF run, of ?page] cb r by simp
      have cl: "length ?page < ?B \<longrightarrow> chunks ?B (drop (k + ?B) ?xs) = []"
        using page by auto
      show ?thesis
        unfolding fastInv_def a
        apply (rule exI[of _ "k + ?B"], rule exI[of _ "ps @ [?page]"])
        using nxt bs' run' cl ff ex fl r
        apply simp
        done
    qed
  qed
qed


lemma fastInv_run:
  assumes "distinct (map ref (docs (traversable t)))"
    and "maxDocCount (traversalConfig t) = None"
    and "exitEarlyPredicates t = []"
    and "\<forall>page i s. fst (cb page i s) = None"
    and "fastInv t cb s0 st"
  shows "fastInv t cb s0 (fastRun t cb sched st)"
  using assms(5)
proof (induction sched arbitrary: st)
  case Nil
  then show ?case by simp
next
  case (Cons a sched)
  have "fastInv t cb s0 (fastStep t cb a st)"
  proof (cases a)
    case Admit
    with fastInv_admit[OF assms(1,2,4) Cons.prems] show ?thesis by simp
  next
    case (Settle j)
    with fastInv_settle[OF assms(3) Cons.prems] show ?thesis by simp
  qed
  then show ?case by (simp add: Cons.IH)
qed

lemma fastInv_result:
  assumes "fastInv t cb s0 st" and "fastResult st = Some r"
  shows "r = traverse t cb s0"
proof -
  from assms(1) obtain k ps where
    bs: "batches t = ps @ chunks (nat (batchSize (traversalConfig t)))
                               (drop k (orderedDocs (traversable t)))"
    and run: "runBatches cb ps 0 0 s0 =
            (Inr \<lparr>batchCount = admittedBatchCount st, docCount = admittedDocCount st\<rparr>,
             callerState st)"
    and closed: "admissionClosed st \<longrightarrow>
          chunks (nat (batchSize (traversalConfig t))) (drop k (orderedDocs (traversable t))) = []"
    and ff: "firstFailure st = None" and ex: "\<not> exitSignalled st"
    unfolding fastInv_def by blast
  from assms(2) ff ex have c: "admissionClosed st"
    and r: "r = (Inr \<lparr>batchCount = admittedBatchCount st, docCount = admittedDocCount st\<rparr>,
                 callerState st)"
    by (auto simp: fastResult_def split: if_splits)
  from c closed bs have "batches t = ps" by simp
  with run r show ?thesis by (simp add: traverse_runBatches)
qed

lemma fastRun_append:
  "fastRun t cb (xs @ ys) st = fastRun t cb ys (fastRun t cb xs st)"
  by (induction xs arbitrary: st) simp_all

lemma one_round:
  assumes nolimit: "maxDocCount (traversalConfig t) = None"
    and noexit: "exitEarlyPredicates t = []"
    and nofail: "\<forall>page i s. fst (cb page i s) = None"
    and ceiling: "belowCeiling (traversalConfig t) 0"
    and good: "inFlight st = []" "firstFailure st = None" "\<not> exitSignalled st"
  shows "inFlight (settle t 0 (admit t cb st)) = []
       \<and> firstFailure (settle t 0 (admit t cb st)) = None
       \<and> \<not> exitSignalled (settle t 0 (admit t cb st))
       \<and> (admissionClosed (settle t 0 (admit t cb st))
            \<or> length (startAfter (traversable t) (cursorF (settle t 0 (admit t cb st))))
                < length (startAfter (traversable t) (cursorF st)))"
proof -
  let ?B = "nat (batchSize (traversalConfig t))"
  let ?page = "fetchPage (traversable t) (cursorF st) ?B"
  show ?thesis
  proof (cases "admissionClosed st")
    case True
    then have "admit t cb st = st" by (simp add: admit_def)
    with good True show ?thesis by (simp add: settle_def)
  next
    case notclosed: False
    show ?thesis
    proof (cases "?page = []")
      case True
      with notclosed good ceiling have "admit t cb st = st\<lparr>admissionClosed := True\<rparr>"
        by (simp add: admit_def)
      with good show ?thesis by (simp add: settle_def)
    next
      case False
      obtain r s' where cb: "cb ?page (admittedBatchCount st) (callerState st) = (r, s')"
        by (cases "cb ?page (admittedBatchCount st) (callerState st)")
      with nofail have r: "r = None" by (metis fst_conv)
      have a: "admit t cb st =
                st\<lparr>cursorF := Some (last ?page),
                   admissionClosed := (length ?page < ?B),
                   inFlight := inFlight st @ [(admittedBatchCount st, ?page, r)],
                   admittedBatchCount := admittedBatchCount st + 1,
                   admittedDocCount := admittedDocCount st + length ?page,
                   callerState := s'\<rparr>"
        using notclosed good ceiling False nolimit cb
        by (simp add: admit_def wouldExceed_def Let_def)
      have less: "length (startAfter (traversable t) (Some (last ?page)))
                  < length (startAfter (traversable t) (cursorF st))"
        using False by (rule startAfter_last_less)
      show ?thesis
        using good r noexit less
        by (simp add: a settle_def shouldExitEarly_def)
    qed
  qed
qed

lemma oneAtATime_completes:
  assumes nolimit: "maxDocCount (traversalConfig t) = None"
    and noexit: "exitEarlyPredicates t = []"
    and nofail: "\<forall>page i s. fst (cb page i s) = None"
    and ceiling: "belowCeiling (traversalConfig t) 0"
    and good: "inFlight st = []" "firstFailure st = None" "\<not> exitSignalled st"
    and fuel: "admissionClosed st \<or> length (startAfter (traversable t) (cursorF st)) < n"
  shows "admissionClosed (fastRun t cb (oneAtATime n) st)
       \<and> inFlight (fastRun t cb (oneAtATime n) st) = []"
  using good fuel
proof (induction n arbitrary: st)
  case 0
  then show ?case by (simp add: oneAtATime_def)
next
  case (Suc n)
  let ?st1 = "settle t 0 (admit t cb st)"
  note r = one_round[OF nolimit noexit nofail ceiling Suc.prems(1-3)]
  have fuel1: "admissionClosed ?st1 \<or> length (startAfter (traversable t) (cursorF ?st1)) < n"
  proof (cases "admissionClosed st")
    case True
    then have "admit t cb st = st" by (simp add: admit_def)
    with True Suc.prems(1) show ?thesis by (simp add: settle_def)
  next
    case False
    with Suc.prems(4) r show ?thesis by auto
  qed
  have "fastRun t cb (oneAtATime (Suc n)) st = fastRun t cb (oneAtATime n) ?st1"
    by (simp add: oneAtATime_def)
  with Suc.IH[OF _ _ _ fuel1] r show ?case by simp
qed

lemma validConfig_ceiling:
  "validateConfig c = None \<Longrightarrow> belowCeiling c 0"
  by (auto simp: validateConfig_def belowCeiling_def split: if_splits option.splits)

lemma fastTraverse_completes:
  assumes "maxDocCount (traversalConfig t) = None"
    and "exitEarlyPredicates t = []"
    and "\<forall>page i s. fst (cb page i s) = None"
    and "validateConfig (traversalConfig t) = None"
  shows "fastTraverse t cb (oneAtATime (Suc (length (docs (traversable t))))) s0 \<noteq> None"
proof -
  have "admissionClosed (fastRun t cb (oneAtATime (Suc (length (docs (traversable t)))))
                (fastInit s0))
       \<and> inFlight (fastRun t cb (oneAtATime (Suc (length (docs (traversable t))))) (fastInit s0)) = []"
    by (intro oneAtATime_completes[OF assms(1-3) validConfig_ceiling[OF assms(4)]])
       (simp_all add: fastInit_def startAfter_def orderedDocs_def)
  then show ?thesis by (simp add: fastTraverse_def fastResult_def)
qed

section \<open>Every record is visited once\<close>

lemma runBatches_recordBatch:
  "runBatches recordBatch ps bc dc acc =
     (Inr \<lparr>batchCount = bc + length ps, docCount = dc + length (concat ps)\<rparr>, acc @ ps)"
  by (induction ps arbitrary: bc dc acc) (simp_all add: recordBatch_def add.assoc)

lemma createTraverser_Inr:
  assumes "createTraverser tb cfg = Inr t"
  shows "validateConfig cfg = None"
    and "t = \<lparr>traversable = tb, exitEarlyPredicates = [], traversalConfig = cfg\<rparr>"
  using assms
  by (auto simp: createTraverser_def BasicSlowTraverserImplementation_def split: option.splits)

lemma validConfig_batchSize: "validateConfig c = None \<Longrightarrow> 0 < batchSize c"
  by (auto simp: validateConfig_def split: if_splits)

text \<open>
  C1. For every collection whose documents have distinct references, and every traverser
  \<open>createTraverser\<close> or \<open>createFastTraverser\<close> builds over it with no \<open>maxDocCount\<close>, with
  \<open>N\<close> the size of the collection and \<open>B\<close> the batch size: the sequential traversal with a
  callback that never fails returns \<open>batchCount = ceil(N/B)\<close> and \<open>docCount = N\<close>; the
  batches it invokes the callback on, concatenated, are the collection in key order, so
  every record is in exactly one batch; all batches have \<open>B\<close> records but a shorter last
  one when \<open>B\<close> does not divide \<open>N\<close>. For every value of \<open>maxConcurrentBatchCount\<close> the
  configuration admits and every schedule, a concurrent traversal that completes returns
  exactly what the sequential traversal returns, and a schedule that completes exists.
\<close>

theorem traversal_visits_every_record_once:
  assumes "createTraverser tb cfg = Inr t"
    and "maxDocCount cfg = None"
    and "distinct (map ref (docs tb))"
    and "\<forall>page i s. fst (cb page i s) = None"
  shows "(\<exists>st'. traverse t cb st =
            (Inr \<lparr>batchCount = (length (docs tb) + nat (batchSize cfg) - 1) div nat (batchSize cfg),
                   docCount = length (docs tb)\<rparr>, st'))
       \<and> traverse t recordBatch [] =
            (Inr \<lparr>batchCount = (length (docs tb) + nat (batchSize cfg) - 1) div nat (batchSize cfg),
                   docCount = length (docs tb)\<rparr>, batches t)
       \<and> concat (batches t) = sort_key ref (docs tb)
       \<and> distinct (concat (batches t))
       \<and> set (concat (batches t)) = set (docs tb)
       \<and> map length (batches t) =
            replicate (length (docs tb) div nat (batchSize cfg)) (nat (batchSize cfg))
              @ (if length (docs tb) mod nat (batchSize cfg) = 0 then []
                 else [length (docs tb) mod nat (batchSize cfg)])
       \<and> createFastTraverser tb cfg = Inr t
       \<and> (\<forall>sched r. fastTraverse t cb sched st = Some r \<longrightarrow> r = traverse t cb st)
       \<and> (\<exists>sched. fastTraverse t cb sched st = Some (traverse t cb st))"
proof -
  note v = createTraverser_Inr(1)[OF assms(1)] and t = createTraverser_Inr(2)[OF assms(1)]
  have B: "0 < nat (batchSize cfg)" using validConfig_batchSize[OF v] by simp
  have d: "distinct (map ref (docs (traversable t)))" using assms(3) t by simp
  have nolimit: "maxDocCount (traversalConfig t) = None" using assms(2) t by simp
  have noexit: "exitEarlyPredicates t = []" using t by simp
  have vt: "validateConfig (traversalConfig t) = None" using v t by simp
  have bs: "batches t = chunks (nat (batchSize cfg)) (sort_key ref (docs tb))"
    using batches_chunks[OF d nolimit noexit] t by (simp add: orderedDocs_def)
  have len: "length (batches t) = (length (docs tb) + nat (batchSize cfg) - 1) div nat (batchSize cfg)"
    using bs length_chunks[OF B, of "sort_key ref (docs tb)"] by simp
  have cc: "concat (batches t) = sort_key ref (docs tb)"
    using bs concat_chunks[OF B] by simp
  have 1: "\<exists>st'. traverse t cb st =
            (Inr \<lparr>batchCount = (length (docs tb) + nat (batchSize cfg) - 1) div nat (batchSize cfg),
                   docCount = length (docs tb)\<rparr>, st')"
    using runBatches_total[OF assms(4), of "batches t" 0 0 st] len cc
    by (simp add: traverse_runBatches)
  have 2: "traverse t recordBatch [] =
            (Inr \<lparr>batchCount = (length (docs tb) + nat (batchSize cfg) - 1) div nat (batchSize cfg),
                   docCount = length (docs tb)\<rparr>, batches t)"
    using len cc by (simp add: traverse_runBatches runBatches_recordBatch)
  have 4: "distinct (concat (batches t))"
    using assms(3) cc by (simp add: distinct_map)
  have 5: "set (concat (batches t)) = set (docs tb)"
    using cc by simp
  have 6: "map length (batches t) =
            replicate (length (docs tb) div nat (batchSize cfg)) (nat (batchSize cfg))
              @ (if length (docs tb) mod nat (batchSize cfg) = 0 then []
                 else [length (docs tb) mod nat (batchSize cfg)])"
    using bs map_length_chunks[OF B, of "sort_key ref (docs tb)"] by simp
  have 7: "createFastTraverser tb cfg = Inr t"
    using v t by (simp add: createFastTraverser_def PromiseQueueBasedFastTraverserImplementation_def)
  have 8: "\<forall>sched r. fastTraverse t cb sched st = Some r \<longrightarrow> r = traverse t cb st"
  proof (intro allI impI)
    fix sched r
    assume "fastTraverse t cb sched st = Some r"
    then have "fastResult (fastRun t cb sched (fastInit st)) = Some r"
      by (simp add: fastTraverse_def)
    moreover have "fastInv t cb st (fastRun t cb sched (fastInit st))"
      using d nolimit noexit assms(4) fastInv_init[OF d nolimit noexit] by (rule fastInv_run)
    ultimately show "r = traverse t cb st" by (rule fastInv_result[rotated])
  qed
  have "fastTraverse t cb (oneAtATime (Suc (length (docs (traversable t))))) st \<noteq> None"
    using nolimit noexit assms(4) vt by (rule fastTraverse_completes)
  with 8 have 9: "\<exists>sched. fastTraverse t cb sched st = Some (traverse t cb st)"
    by (metis not_None_eq)
  from 1 2 cc 4 5 6 7 8 9 show ?thesis by blast
qed

text \<open>
  The scenario of the spec: a collection of 10 records with batch size 3 is traversed
  in batches of sizes 3, 3, 3 and 1, with \<open>docCount = 10\<close> and \<open>batchCount = 4\<close>;
  concurrent traversals with at most two and at most four units in flight return the
  same.
\<close>

theorem traversal_visits_every_record_once_witness:
  "createTraverser \<lparr>docs = exampleCollection 10, firestore_commit = lockedCommit []\<rparr>
      (traversalConfig (exampleFastTraverser 10 3 2)) = Inr (exampleFastTraverser 10 3 2)
   \<and> maxDocCount (traversalConfig (exampleFastTraverser 10 3 2)) = None
   \<and> distinct (map ref (exampleCollection 10))
   \<and> fst (traverse (exampleFastTraverser 10 3 2) recordBatch []) =
       Inr \<lparr>batchCount = 4, docCount = 10\<rparr>
   \<and> map length (batches (exampleFastTraverser 10 3 2)) = [3, 3, 3, 1]
   \<and> map (map ref) (snd (traverse (exampleFastTraverser 10 3 2) recordBatch [])) =
       [[0, 1, 2], [3, 4, 5], [6, 7, 8], [9]]
   \<and> fastTraverse (exampleFastTraverser 10 3 2) recordBatch
        [Admit, Admit, Admit, Settle 1, Admit, Admit, Settle 0, Settle 1, Settle 0, Admit, Settle 0] []
       = Some (traverse (exampleFastTraverser 10 3 2) recordBatch [])
   \<and> fastTraverse (exampleFastTraverser 10 3 4) recordBatch
        [Admit, Admit, Admit, Admit, Settle 3, Settle 0, Settle 1, Settle 0] []
       = fastTraverse (exampleFastTraverser 10 3 2) recordBatch
        [Admit, Admit, Admit, Settle 1, Admit, Admit, Settle 0, Settle 1, Settle 0, Admit, Settle 0] []"
proof -
  have h1: "createTraverser \<lparr>docs = exampleCollection 10, firestore_commit = lockedCommit []\<rparr>
      (traversalConfig (exampleFastTraverser 10 3 2)) = Inr (exampleFastTraverser 10 3 2)"
    by (simp add: createTraverser_def BasicSlowTraverserImplementation_def validateConfig_def
          exampleFastTraverser_def)
  have h2: "maxDocCount (traversalConfig (exampleFastTraverser 10 3 2)) = None"
    by (simp add: exampleFastTraverser_def)
  have h3: "distinct (map ref (docs \<lparr>docs = exampleCollection 10,
               firestore_commit = (lockedCommit [] ::
                 (nat, string, bool) write_op list \<Rightarrow> (nat, string, bool) write_op list
                   \<Rightarrow> (nat, string, bool) write_op list option)\<rparr>))"
    by code_simp
  have h4: "\<forall>page i s. fst (recordBatch page i s) = None"
    by (simp add: recordBatch_def)
  note c = traversal_visits_every_record_once[OF h1 h2 h3 h4, of "[]"]
  have len: "length (docs \<lparr>docs = exampleCollection 10,
               firestore_commit = (lockedCommit [] ::
                 (nat, string, bool) write_op list \<Rightarrow> (nat, string, bool) write_op list
                   \<Rightarrow> (nat, string, bool) write_op list option)\<rparr>) = 10"
    by (simp add: exampleCollection_def)
  have bsz: "nat (batchSize (traversalConfig (exampleFastTraverser 10 3 2))) = 3"
    by (simp add: exampleFastTraverser_def)
  have ar: "replicate (10 div 3) (3::nat) @ (if (10::nat) mod 3 = 0 then [] else [10 mod 3])
            = [3, 3, 3, 1]"
    by code_simp
  have a: "map length (batches (exampleFastTraverser 10 3 2)) = [3, 3, 3, 1]"
    using c len bsz ar by simp
  have b: "fst (traverse (exampleFastTraverser 10 3 2) recordBatch []) =
             Inr \<lparr>batchCount = 4, docCount = 10\<rparr>"
    by code_simp
  have e: "map (map ref) (snd (traverse (exampleFastTraverser 10 3 2) recordBatch [])) =
       [[0, 1, 2], [3, 4, 5], [6, 7, 8], [9]]"
    by code_simp
  have "fastTraverse (exampleFastTraverser 10 3 2) recordBatch
        [Admit, Admit, Admit, Settle 1, Admit, Admit, Settle 0, Settle 1, Settle 0, Admit, Settle 0] []
        \<noteq> None"
    by code_simp
  with c have f: "fastTraverse (exampleFastTraverser 10 3 2) recordBatch
        [Admit, Admit, Admit, Settle 1, Admit, Admit, Settle 0, Settle 1, Settle 0, Admit, Settle 0] []
       = Some (traverse (exampleFastTraverser 10 3 2) recordBatch [])"
    by (metis not_None_eq)
  have g: "fastTraverse (exampleFastTraverser 10 3 4) recordBatch
        [Admit, Admit, Admit, Admit, Settle 3, Settle 0, Settle 1, Settle 0] []
       = fastTraverse (exampleFastTraverser 10 3 2) recordBatch
        [Admit, Admit, Admit, Settle 1, Admit, Admit, Settle 0, Settle 1, Settle 0, Admit, Settle 0] []"
    by code_simp
  have h3': "distinct (map ref (exampleCollection 10))" using h3 by simp
  from h1 h2 h3' a b e f g show ?thesis by blast
qed

end
